theory Spec2Isabelle
  imports Main "HOL-Library.AList"
begin

section \<open>Nodes of a conditional-structure tree\<close>

text \<open>
  Modelled from the spec: the node classes and the tree class, which are built by the
  parser and are not part of \<^verbatim>\<open>codebasin/walkers.py\<close>. The walkers use a node only
  through \<^verbatim>\<open>children\<close>, \<^verbatim>\<open>type(node).__name__ == 'FileNode'\<close>, \<^verbatim>\<open>filename\<close>,
  \<^verbatim>\<open>'num_lines' in dir(node)\<close>, \<^verbatim>\<open>num_lines\<close>, the three classification methods and
  \<^verbatim>\<open>evaluate_for_platform\<close>, and as a dictionary key, and a tree only through
  \<^verbatim>\<open>root\<close>; so a node is modelled by exactly these observations:
  \<^item> \<open>nid\<close>: the identity of the node object (dictionaries are keyed by node objects);
  \<^item> \<open>node_class\<close>: whether the class is named \<^verbatim>\<open>FileNode\<close>, and then its \<^verbatim>\<open>filename\<close>;
  \<^item> \<open>num_lines\<close>: \<open>None\<close> when the object has no attribute \<^verbatim>\<open>num_lines\<close>;
  \<^item> the results of \<^verbatim>\<open>is_start_node()\<close>, \<^verbatim>\<open>is_cont_node()\<close>, \<^verbatim>\<open>is_end_node()\<close>;
  \<^item> the ordered children.
\<close>

datatype node_class = FileNode string | OtherNode

datatype node =
  Node (nid: nat) (node_class: node_class) (num_lines: "int option")
       (is_start_node: bool) (is_cont_node: bool) (is_end_node: bool)
       (children: "node list")

record tree =
  root :: node

fun is_FileNode :: "node_class \<Rightarrow> bool" where
  "is_FileNode (FileNode f) = True"
| "is_FileNode OtherNode = False"

section \<open>NodeAssociation and NodeAssociationMap\<close>

record NodeAssociation =
  platforms :: "string set"

definition NodeAssociation_init :: NodeAssociation where
  "NodeAssociation_init = \<lparr>platforms = {}\<rparr>"

definition NodeAssociation_add_platform :: "string \<Rightarrow> NodeAssociation \<Rightarrow> NodeAssociation" where
  "NodeAssociation_add_platform p a =
     (if p \<notin> platforms a then a\<lparr>platforms := platforms a \<union> set [p]\<rparr> else a)"

text \<open>The dictionary \<^verbatim>\<open>_node_associations\<close>, keyed by the identity of the node.\<close>

type_synonym NodeAssociationMap = "nat \<rightharpoonup> NodeAssociation"

definition NodeAssociationMap_init :: NodeAssociationMap where
  "NodeAssociationMap_init = Map.empty"

definition prepare_node :: "node \<Rightarrow> NodeAssociationMap \<Rightarrow> NodeAssociationMap" where
  "prepare_node n m = (if m (nid n) = None then m(nid n \<mapsto> NodeAssociation_init) else m)"

definition add_platform :: "node \<Rightarrow> string \<Rightarrow> NodeAssociationMap \<Rightarrow> NodeAssociationMap" where
  "add_platform n p m =
     (let m1 = prepare_node n m in
      case m1 (nid n) of
        Some a \<Rightarrow> m1(nid n \<mapsto> NodeAssociation_add_platform p a)
      | None \<Rightarrow> m1)"

definition get_association :: "NodeAssociationMap \<Rightarrow> node \<Rightarrow> NodeAssociation option" where
  "get_association m n = (if m (nid n) \<noteq> None then m (nid n) else None)"

section \<open>TreeAssociator\<close>

text \<open>
  Modelled from the spec: \<^verbatim>\<open>evaluate_for_platform\<close> and the platform, which belong to the
  node classes and the configuration and which the walkers only call. The evaluation
  is a parameter of the model: given the node, the platform's
  name, the file name of the tree's root and the evaluation context (the platform's
  definitions and the analysis state, which an evaluation may change), it returns
  the new context and either the applicability or the failure it raised.
  The platform is its immutable name together with that context.
\<close>

datatype error = AttributeError | EvaluationFailure string

type_synonym 'e evaluator = "node \<Rightarrow> string \<Rightarrow> string \<Rightarrow> 'e \<Rightarrow> (error + bool) \<times> 'e"

text \<open>
  \<^verbatim>\<open>_associate_nodes(node, platform, state, process_children)\<close>. The association map
  and the evaluation context are threaded through; a raised exception is \<open>Inl\<close>, and
  the map keeps what was recorded before it. \<open>rt\<close> is \<^verbatim>\<open>self.tree.root\<close>, whose
  \<^verbatim>\<open>filename\<close> is read when \<^verbatim>\<open>eval_args\<close> is built, after the platform was recorded.
  \<open>associate_children\<close> is the loop over \<^verbatim>\<open>node.children\<close>; its flag is
  \<^verbatim>\<open>process_child\<close>, returned as it stands when the loop ends.
\<close>

fun associate_nodes ::
  "'e evaluator \<Rightarrow> node \<Rightarrow> node \<Rightarrow> string \<Rightarrow> bool \<Rightarrow> NodeAssociationMap \<times> 'e
     \<Rightarrow> (error + bool) \<times> NodeAssociationMap \<times> 'e"
and associate_children ::
  "'e evaluator \<Rightarrow> node \<Rightarrow> node list \<Rightarrow> string \<Rightarrow> bool \<Rightarrow> NodeAssociationMap \<times> 'e
     \<Rightarrow> (error + bool) \<times> NodeAssociationMap \<times> 'e"
where
  "associate_nodes ev rt (Node i c nl st ct en chs) pname process_children (m, env) =
     (let m1 = add_platform (Node i c nl st ct en chs) pname m in
      case node_class rt of
        OtherNode \<Rightarrow> (Inl AttributeError, m1, env)
      | FileNode fname \<Rightarrow>
          if \<not> process_children then (Inr False, m1, env)
          else
            (case ev (Node i c nl st ct en chs) pname fname env of
               (Inl err, env1) \<Rightarrow> (Inl err, m1, env1)
             | (Inr False, env1) \<Rightarrow> (Inr False, m1, env1)
             | (Inr True, env1) \<Rightarrow>
                 (case associate_children ev rt chs pname True (m1, env1) of
                    (Inl err, s) \<Rightarrow> (Inl err, s)
                  | (Inr process_child, s) \<Rightarrow> (Inr True, s))))"
| "associate_children ev rt [] pname process_child s = (Inr process_child, s)"
| "associate_children ev rt (child # rest) pname process_child s =
     (case associate_nodes ev rt child pname process_child s of
        (Inl err, s1) \<Rightarrow> (Inl err, s1)
      | (Inr child_processed, s1) \<Rightarrow>
          associate_children ev rt rest pname
            (if child_processed \<and> (is_start_node child \<or> is_cont_node child) then False
             else if \<not> process_child \<and> is_end_node child then True
             else process_child)
            s1)"

text \<open>\<^verbatim>\<open>TreeAssociator.walk(platform, state)\<close>: the result of the root's call is dropped.\<close>

definition TreeAssociator_walk ::
  "'e evaluator \<Rightarrow> tree \<Rightarrow> string \<Rightarrow> NodeAssociationMap \<times> 'e
     \<Rightarrow> (error + unit) \<times> NodeAssociationMap \<times> 'e" where
  "TreeAssociator_walk ev t pname s =
     (case associate_nodes ev (root t) (root t) pname True s of
        (Inl err, s1) \<Rightarrow> (Inl err, s1)
      | (Inr processed, s1) \<Rightarrow> (Inr (), s1))"

section \<open>TreeMapper and PlatformMapper\<close>

text \<open>
  Python dictionaries keep their keys in insertion order: a dictionary is an association
  list with distinct keys, \<open>map_of\<close> is the lookup and \<open>AList.update\<close> the assignment
  \<^verbatim>\<open>d[k] = v\<close> (in place for a present key, appended for a new one).
  \<open>dd_add\<close> is \<^verbatim>\<open>d[k] += n\<close> on a \<^verbatim>\<open>defaultdict(int)\<close>: a missing key is read as 0.
\<close>

definition dd_get :: "('k \<times> int) list \<Rightarrow> 'k \<Rightarrow> int" where
  "dd_get d k = (case map_of d k of None \<Rightarrow> 0 | Some v \<Rightarrow> v)"

definition dd_add :: "'k \<Rightarrow> int \<Rightarrow> ('k \<times> int) list \<Rightarrow> ('k \<times> int) list" where
  "dd_add k n d = AList.update k (dd_get d k + n) d"

type_synonym line_map = "(string set \<times> int) list"
type_synonym file_map = "(string set \<times> (string \<times> int) list) list"

record PlatformMapper =
  line_map :: line_map
  file_map :: file_map
  codebase_files :: "string list"

definition PlatformMapper_init :: "string list \<Rightarrow> PlatformMapper" where
  "PlatformMapper_init files = \<lparr>line_map = [], file_map = [], codebase_files = files\<rparr>"

definition null_set :: "string set" where
  "null_set = {}"

text \<open>
  The accumulation that both branches of \<^verbatim>\<open>_map_node\<close> spell out, for the key \<open>S\<close>:
  \<^verbatim>\<open>line_map[S] += n\<close>, then the entry of \<open>S\<close> in the file map is created when missing,
  the entry of the file in it is created as 0 when missing, and \<open>n\<close> is added to it.
\<close>

definition accumulate :: "string set \<Rightarrow> string \<Rightarrow> int \<Rightarrow> PlatformMapper \<Rightarrow> PlatformMapper" where
  "accumulate S fn n self =
     (let lm = dd_add S n (line_map self);
          fm1 = (if map_of (file_map self) S = None then AList.update S [] (file_map self)
                 else file_map self);
          per_file = (case map_of fm1 S of None \<Rightarrow> [] | Some d \<Rightarrow> d);
          per_file1 = (if map_of per_file fn = None then AList.update fn 0 per_file
                       else per_file);
          per_file2 = dd_add fn n per_file1
      in self\<lparr>line_map := lm, file_map := AList.update S per_file2 fm1\<rparr>)"

fun map_node :: "string \<Rightarrow> node \<Rightarrow> NodeAssociationMap \<Rightarrow> PlatformMapper \<Rightarrow> PlatformMapper"
and map_children :: "string \<Rightarrow> node list \<Rightarrow> NodeAssociationMap \<Rightarrow> PlatformMapper \<Rightarrow> PlatformMapper"
where
  "map_node fn (Node i c nl st ct en chs) amap self =
     (if (case c of FileNode f \<Rightarrow> f \<notin> set (codebase_files self) | OtherNode \<Rightarrow> False)
      then self
      else
        map_children fn chs amap
          (case nl of
             None \<Rightarrow> self
           | Some n \<Rightarrow>
               if \<not> is_FileNode c then
                 (case get_association amap (Node i c nl st ct en chs) of
                    Some association \<Rightarrow> accumulate (platforms association) fn n self
                  | None \<Rightarrow> accumulate null_set fn n self)
               else self))"
| "map_children fn [] amap self = self"
| "map_children fn (child # rest) amap self =
     map_children fn rest amap (map_node fn child amap self)"

text \<open>
  Modelled from the spec: the analysis state, whose class is not part of the walkers.
  \<^verbatim>\<open>walk\<close> uses it through \<^verbatim>\<open>get_filenames\<close>, \<^verbatim>\<open>get_tree\<close> and \<^verbatim>\<open>get_map\<close> only: it is the
  sequence of the file names, each with its tree and its association map, and
  \<open>map_files\<close> is the loop of \<^verbatim>\<open>walk\<close> over it.
\<close>

type_synonym state = "(string \<times> tree \<times> NodeAssociationMap) list"

fun map_files :: "state \<Rightarrow> PlatformMapper \<Rightarrow> PlatformMapper" where
  "map_files [] self = self"
| "map_files ((fn, t, amap) # rest) self = map_files rest (map_node fn (root t) amap self)"

text \<open>\<^verbatim>\<open>walk(state)\<close> returns the two maps; the mapper object keeps them.\<close>

definition PlatformMapper_walk :: "PlatformMapper \<Rightarrow> state \<Rightarrow> (line_map \<times> file_map) \<times> PlatformMapper" where
  "PlatformMapper_walk self st =
     (let self1 = (if line_map self = [] then map_files st self else self)
      in ((line_map self1, file_map self1), self1))"

section \<open>Notions used to state the properties\<close>

subsection \<open>Trees, records and calls\<close>

text \<open>
  The nodes of a tree in pre-order, the proper descendants of a node, the platform
  names recorded for a node identity (none for a node without a record), the order
  "every record is kept and has lost no name" on association maps, the map after
  recording a platform on each node of a list and doing nothing else, and the map
  after recording each platform of a list on one node (what a sequence of passes that
  visit the node does to its record).
\<close>

fun subtree :: "node \<Rightarrow> node list" and subtrees :: "node list \<Rightarrow> node list" where
  "subtree (Node i c nl st ct en chs) = Node i c nl st ct en chs # subtrees chs"
| "subtrees [] = []"
| "subtrees (n # ns) = subtree n @ subtrees ns"

definition descendants :: "node \<Rightarrow> node list" where
  "descendants n = subtrees (children n)"

definition recorded :: "NodeAssociationMap \<Rightarrow> nat \<Rightarrow> string set" where
  "recorded m i = (case m i of None \<Rightarrow> {} | Some a \<Rightarrow> platforms a)"

definition assoc_le :: "NodeAssociationMap \<Rightarrow> NodeAssociationMap \<Rightarrow> bool" where
  "assoc_le m m' = (\<forall>i a. m i = Some a \<longrightarrow> (\<exists>a'. m' i = Some a' \<and> platforms a \<subseteq> platforms a'))"

fun record_only :: "node list \<Rightarrow> string \<Rightarrow> NodeAssociationMap \<Rightarrow> NodeAssociationMap" where
  "record_only [] p m = m"
| "record_only (n # ns) p m = record_only ns p (add_platform n p m)"

definition record_platforms :: "node \<Rightarrow> string list \<Rightarrow> NodeAssociationMap \<Rightarrow> NodeAssociationMap" where
  "record_platforms n ps m = fold (add_platform n) ps m"

text \<open>
  \<open>visited p m d\<close>: the map \<open>m\<close> has a record for the node \<open>d\<close> and the platform \<open>p\<close> is in
  it. \<open>plain ev pname fname x\<close>: the node \<open>x\<close> neither starts nor continues a group and
  its evaluation for the platform answers "applicable" in every context, as the nodes
  without a condition do.
\<close>

definition visited :: "string \<Rightarrow> NodeAssociationMap \<Rightarrow> node \<Rightarrow> bool" where
  "visited p m d = (\<exists>a. m (nid d) = Some a \<and> p \<in> platforms a)"

definition plain :: "'e evaluator \<Rightarrow> string \<Rightarrow> string \<Rightarrow> node \<Rightarrow> bool" where
  "plain ev pname fname x =
     (\<not> is_start_node x \<and> \<not> is_cont_node x
      \<and> (\<forall>env. \<exists>env'. ev x pname fname env = (Inr True, env')))"

text \<open>
  \<open>invoked ev rt pname A B\<close>: while the call \<open>A\<close> of \<open>_associate_nodes\<close> runs, the call
  \<open>B\<close> is made. A call is the node, the flag \<open>process_children\<close> and the association
  map and evaluation context at its entry. A call is made by itself; and a call on \<open>n\<close>
  with the flag true whose evaluation is applicable makes, for each child, the call
  with the flag and the state that the loop has reached after the children before it
  (the value of \<open>associate_children\<close> on them), and every call which that one makes.
\<close>

inductive invoked ::
  "'e evaluator \<Rightarrow> node \<Rightarrow> string \<Rightarrow> node \<times> bool \<times> NodeAssociationMap \<times> 'e
     \<Rightarrow> node \<times> bool \<times> NodeAssociationMap \<times> 'e \<Rightarrow> bool"
  for ev :: "'e evaluator" and rt :: node and pname :: string
where
  invoked_here: "invoked ev rt pname call call"
| invoked_below:
    "node_class rt = FileNode fname \<Longrightarrow>
     ev n pname fname env = (Inr True, env1) \<Longrightarrow>
     children n = before @ child # after \<Longrightarrow>
     associate_children ev rt before pname True (add_platform n pname m, env1) = (Inr flag, s1) \<Longrightarrow>
     invoked ev rt pname (child, flag, s1) call \<Longrightarrow>
     invoked ev rt pname (n, True, m, env) call"

subsection \<open>Code nodes and their lines\<close>

text \<open>
  The frozen platform set under which \<open>_map_node\<close> counts a node (the empty set for
  a node without a record), the nodes it counts (those with \<^verbatim>\<open>num_lines\<close> that are
  not file nodes) and their line count. \<open>file_tree fn t\<close>: the root of the tree is the
  file node of \<open>fn\<close> and no other node is a file node. \<open>attributed files st\<close> lists,
  for the files of the state that belong to the codebase, every code node with its
  platform set and its file; \<open>total_lines\<close>, \<open>lines_in\<close> and \<open>lines_in_file\<close> add up the
  lines of such a list: all of them, those of one platform set, and those of one
  platform set in one file. \<open>sum_values\<close> is the sum of the values of a dictionary and
  \<open>per_file fm S\<close> the dictionary \<^verbatim>\<open>file_map[S]\<close> (empty when \<open>S\<close> is not a key).
\<close>

definition platform_key :: "NodeAssociationMap \<Rightarrow> node \<Rightarrow> string set" where
  "platform_key amap n =
     (case get_association amap n of Some association \<Rightarrow> platforms association | None \<Rightarrow> null_set)"

definition is_code_node :: "node \<Rightarrow> bool" where
  "is_code_node n = (num_lines n \<noteq> None \<and> \<not> is_FileNode (node_class n))"

definition lines_of :: "node \<Rightarrow> int" where
  "lines_of n = (case num_lines n of None \<Rightarrow> 0 | Some k \<Rightarrow> k)"

definition code_nodes :: "node \<Rightarrow> node list" where
  "code_nodes n = filter is_code_node (subtree n)"

definition file_tree :: "string \<Rightarrow> tree \<Rightarrow> bool" where
  "file_tree fn t =
     (node_class (root t) = FileNode fn
      \<and> (\<forall>d\<in>set (descendants (root t)). \<not> is_FileNode (node_class d)))"

definition attributed :: "string list \<Rightarrow> state \<Rightarrow> (string set \<times> string \<times> node) list" where
  "attributed files st =
     concat (map (\<lambda>(fn, t, amap).
        if fn \<in> set files then map (\<lambda>n. (platform_key amap n, fn, n)) (code_nodes (root t)) else []) st)"

definition total_lines :: "(string set \<times> string \<times> node) list \<Rightarrow> int" where
  "total_lines xs = sum_list (map (\<lambda>(S', f, n). lines_of n) xs)"

definition lines_in :: "string set \<Rightarrow> (string set \<times> string \<times> node) list \<Rightarrow> int" where
  "lines_in S xs = sum_list (map (\<lambda>(S', f, n). lines_of n) (filter (\<lambda>(S', f, n). S' = S) xs))"

definition lines_in_file :: "string set \<Rightarrow> string \<Rightarrow> (string set \<times> string \<times> node) list \<Rightarrow> int" where
  "lines_in_file S fn xs =
     sum_list (map (\<lambda>(S', f, n). lines_of n) (filter (\<lambda>(S', f, n). S' = S \<and> f = fn) xs))"

definition sum_values :: "('k \<times> int) list \<Rightarrow> int" where
  "sum_values d = sum_list (map snd d)"

definition per_file :: "file_map \<Rightarrow> string set \<Rightarrow> (string \<times> int) list" where
  "per_file fm S = (case map_of fm S of None \<Rightarrow> [] | Some d \<Rightarrow> d)"

subsection \<open>The accumulations of a mapper pass\<close>

text \<open>
  \<open>contributions\<close> lists, in the order of the traversal of \<open>_map_node\<close>, the platform
  set, file and line count of each accumulation it performs; \<open>accumulate_all\<close> performs
  a list of accumulations. They serve the proofs only: \<open>map_node_contributions\<close> below
  shows that \<open>map_node\<close> is \<open>accumulate_all\<close> of \<open>contributions\<close>. \<open>lines_for\<close> and
  \<open>lines_for_file\<close> add up the lines of such a list for one platform set, and
  \<open>maps_agree\<close> says that a line map and a file map have the same keys and that each
  count of the line map is the sum of the per-file counts.
\<close>

fun contributions :: "string list \<Rightarrow> string \<Rightarrow> node \<Rightarrow> NodeAssociationMap \<Rightarrow> (string set \<times> string \<times> int) list"
and contributions_list :: "string list \<Rightarrow> string \<Rightarrow> node list \<Rightarrow> NodeAssociationMap \<Rightarrow> (string set \<times> string \<times> int) list"
where
  "contributions files fn (Node i c nl st ct en chs) amap =
     (if (case c of FileNode f \<Rightarrow> f \<notin> set files | OtherNode \<Rightarrow> False) then []
      else (if is_code_node (Node i c nl st ct en chs)
            then [(platform_key amap (Node i c nl st ct en chs), fn, lines_of (Node i c nl st ct en chs))]
            else [])
           @ contributions_list files fn chs amap)"
| "contributions_list files fn [] amap = []"
| "contributions_list files fn (child # rest) amap =
     contributions files fn child amap @ contributions_list files fn rest amap"

fun accumulate_all :: "(string set \<times> string \<times> int) list \<Rightarrow> PlatformMapper \<Rightarrow> PlatformMapper" where
  "accumulate_all [] self = self"
| "accumulate_all ((S, fn, n) # cs) self = accumulate_all cs (accumulate S fn n self)"

definition state_contributions :: "string list \<Rightarrow> state \<Rightarrow> (string set \<times> string \<times> int) list" where
  "state_contributions files st =
     concat (map (\<lambda>(fn, t, amap). contributions files fn (root t) amap) st)"

definition lines_for :: "string set \<Rightarrow> (string set \<times> string \<times> int) list \<Rightarrow> int" where
  "lines_for S cs = sum_list (map (\<lambda>(S', f, k). k) (filter (\<lambda>(S', f, k). S' = S) cs))"

definition lines_for_file :: "string set \<Rightarrow> string \<Rightarrow> (string set \<times> string \<times> int) list \<Rightarrow> int" where
  "lines_for_file S fn cs = sum_list (map (\<lambda>(S', f, k). k) (filter (\<lambda>(S', f, k). S' = S \<and> f = fn) cs))"

definition maps_agree :: "line_map \<Rightarrow> file_map \<Rightarrow> bool" where
  "maps_agree lm fm =
     (map fst lm = map fst fm \<and> (\<forall>S. dd_get lm S = sum_values (per_file fm S)))"

subsection \<open>The end-to-end scenario\<close>

text \<open>
  The tree, the evaluation and the association map of the end-to-end scenario: node 2
  is \<open>#if A\<close>, applicable on \<open>p1\<close> only; node 4 is \<open>#else\<close> and node 6 \<open>#endif\<close>; the
  code nodes 1, 3, 5 and 7 have 3, 5, 2 and 1 lines. The map is the one after the pass
  of \<open>p1\<close> and then the pass of \<open>p2\<close>.
\<close>

definition scenario_tree :: tree where
  "scenario_tree = \<lparr>root = Node 0 (FileNode ''a.c'') None False False False
     [Node 1 OtherNode (Some 3) False False False [],
      Node 2 OtherNode None True False False [Node 3 OtherNode (Some 5) False False False []],
      Node 4 OtherNode None False True False [Node 5 OtherNode (Some 2) False False False []],
      Node 6 OtherNode None False False True [],
      Node 7 OtherNode (Some 1) False False False []]\<rparr>"

definition scenario_eval :: "unit evaluator" where
  "scenario_eval n p fname env = (if nid n = 2 then (Inr (p = ''p1''), env) else (Inr True, env))"

definition scenario_map :: NodeAssociationMap where
  "scenario_map =
     fst (snd (TreeAssociator_walk scenario_eval scenario_tree ''p2''
       (snd (TreeAssociator_walk scenario_eval scenario_tree ''p1'' (NodeAssociationMap_init, ())))))"

section \<open>Properties of the association map\<close>

lemma add_platform_eq:
  "add_platform n p m = m(nid n \<mapsto> \<lparr>platforms = insert p (recorded m (nid n))\<rparr>)"
  by (auto simp: add_platform_def prepare_node_def NodeAssociation_add_platform_def
      NodeAssociation_init_def recorded_def Let_def fun_eq_iff insert_absorb split: option.splits)

lemma add_platform_other: "j \<noteq> nid n \<Longrightarrow> add_platform n p m j = m j"
  by (simp add: add_platform_eq)

lemma recorded_add_platform:
  "recorded (add_platform n p m) j = (if j = nid n then insert p (recorded m j) else recorded m j)"
  by (simp add: add_platform_eq recorded_def)

lemma assoc_le_refl: "assoc_le m m"
  by (simp add: assoc_le_def)

lemma assoc_le_trans: "assoc_le a b \<Longrightarrow> assoc_le b c \<Longrightarrow> assoc_le a c"
  unfolding assoc_le_def by (meson subset_trans)

lemma assoc_le_add_platform: "assoc_le m (add_platform n p m)"
  by (auto simp: assoc_le_def add_platform_eq recorded_def)

lemma assoc_le_prepare_node: "assoc_le m (prepare_node n m)"
  by (auto simp: assoc_le_def prepare_node_def)

lemma NodeAssociation_add_platform_platforms:
  "platforms (NodeAssociation_add_platform p a) = insert p (platforms a)"
  by (auto simp: NodeAssociation_add_platform_def)

lemma add_platform_idem: "add_platform n p (add_platform n p m) = add_platform n p m"
  by (simp add: add_platform_eq recorded_def)

lemma fold_add_platform:
  "fold (add_platform n) ps m =
     (if ps = [] then m else m(nid n \<mapsto> \<lparr>platforms = recorded m (nid n) \<union> set ps\<rparr>))"
proof (induction ps arbitrary: m)
  case Nil
  show ?case by simp
next
  case (Cons p ps)
  have "fold (add_platform n) (p # ps) m = fold (add_platform n) ps (add_platform n p m)"
    by simp
  also have "\<dots> = (if ps = [] then add_platform n p m
     else (add_platform n p m)(nid n \<mapsto> \<lparr>platforms = recorded (add_platform n p m) (nid n) \<union> set ps\<rparr>))"
    by (rule Cons.IH)
  also have "\<dots> = m(nid n \<mapsto> \<lparr>platforms = recorded m (nid n) \<union> set (p # ps)\<rparr>)"
    by (simp add: add_platform_eq recorded_def)
  finally show ?case by simp
qed

lemma record_platforms_eq:
  "record_platforms n ps m =
     (if ps = [] then m else m(nid n \<mapsto> \<lparr>platforms = recorded m (nid n) \<union> set ps\<rparr>))"
  by (simp only: record_platforms_def fold_add_platform)

lemma record_only_append: "record_only (xs @ ys) p m = record_only ys p (record_only xs p m)"
  by (induction xs arbitrary: m) simp_all

lemma record_only_other: "j \<notin> nid ` set xs \<Longrightarrow> record_only xs p m j = m j"
  by (induction xs arbitrary: m) (simp_all add: add_platform_other)

lemma assoc_le_record_only: "assoc_le m (record_only xs p m)"
proof (induction xs arbitrary: m)
  case Nil
  show ?case by (simp add: assoc_le_refl)
next
  case (Cons x xs)
  have "assoc_le m (add_platform x p m)" by (rule assoc_le_add_platform)
  moreover have "assoc_le (add_platform x p m) (record_only xs p (add_platform x p m))" by (rule Cons.IH)
  ultimately show ?case by (simp add: assoc_le_trans)
qed

section \<open>Properties of the associator\<close>

lemma nid_in_subtree: "nid n \<in> nid ` set (subtree n)"
  by (cases n) simp

lemma subtree_subtrees: "x \<in> set ns \<Longrightarrow> set (subtree x) \<subseteq> set (subtrees ns)"
  by (induction ns) auto

lemma subtrees_append: "subtrees (xs @ ys) = subtrees xs @ subtrees ys"
  by (induction xs) simp_all

lemma subtree_eq: "subtree n = n # descendants n"
  by (cases n) (simp add: descendants_def)

lemma associate_nodes_cases:
  assumes "associate_nodes ev rt n p pc (m, env) = (r, s')"
  obtains
    (no_filename) "node_class rt = OtherNode" "r = Inl AttributeError"
      "s' = (add_platform n p m, env)"
  | (blocked) fname where "node_class rt = FileNode fname" "\<not> pc" "r = Inr False"
      "s' = (add_platform n p m, env)"
  | (failed) fname err env1 where "node_class rt = FileNode fname" "pc"
      "ev n p fname env = (Inl err, env1)" "r = Inl err" "s' = (add_platform n p m, env1)"
  | (inapplicable) fname env1 where "node_class rt = FileNode fname" "pc"
      "ev n p fname env = (Inr False, env1)" "r = Inr False" "s' = (add_platform n p m, env1)"
  | (descended) fname env1 r1 where "node_class rt = FileNode fname" "pc"
      "ev n p fname env = (Inr True, env1)"
      "associate_children ev rt (children n) p True (add_platform n p m, env1) = (r1, s')"
      "r = (case r1 of Inl e \<Rightarrow> Inl e | Inr f \<Rightarrow> Inr True)"
proof (cases n)
  case (Node i c nl st ct en chs)
  show ?thesis
  proof (cases "node_class rt")
    case OtherNode
    with assms Node show ?thesis by (intro no_filename) (simp_all add: Let_def)
  next
    case (FileNode fname)
    show ?thesis
    proof (cases pc)
      case False
      with assms Node FileNode show ?thesis by (intro blocked[of fname]) (simp_all add: Let_def)
    next
      case True
      obtain re env1 where e: "ev n p fname env = (re, env1)" by (cases "ev n p fname env")
      show ?thesis
      proof (cases re)
        case (Inl err)
        with assms Node FileNode True e show ?thesis
          by (intro failed[of fname err env1]) (simp_all add: Let_def)
      next
        case (Inr b)
        show ?thesis
        proof (cases b)
          case False
          with assms Node FileNode True e Inr show ?thesis
            by (intro inapplicable[of fname env1]) (simp_all add: Let_def)
        next
          case b: True
          obtain r1 s1 where c: "associate_children ev rt chs p True (add_platform n p m, env1) = (r1, s1)"
            by (cases "associate_children ev rt chs p True (add_platform n p m, env1)")
          with assms Node FileNode True e Inr b show ?thesis
            by (intro descended[of fname env1 r1]) (auto simp: Let_def split: sum.splits)
        qed
      qed
    qed
  qed
qed

lemma associate_children_Cons_cases:
  assumes "associate_children ev rt (c # cs) p f s = (r, s')"
  obtains
    (child_failed) err where "associate_nodes ev rt c p f s = (Inl err, s')" "r = Inl err"
  | (child_returned) b s1 where "associate_nodes ev rt c p f s = (Inr b, s1)"
      "associate_children ev rt cs p
         (if b \<and> (is_start_node c \<or> is_cont_node c) then False
          else if \<not> f \<and> is_end_node c then True else f) s1 = (r, s')"
proof -
  obtain r1 s1 where c: "associate_nodes ev rt c p f s = (r1, s1)"
    by (cases "associate_nodes ev rt c p f s")
  show ?thesis
  proof (cases r1)
    case (Inl err)
    with assms c show ?thesis by (intro child_failed[of err]) simp_all
  next
    case (Inr b)
    with assms c show ?thesis by (intro child_returned[of b s1]) simp_all
  qed
qed

lemma associate_children_frame_aux:
  assumes "\<And>n pc s r s'. n \<in> set ns \<Longrightarrow> associate_nodes ev rt n p pc s = (r, s')
             \<Longrightarrow> fst s' j = fst s j"
    and "associate_children ev rt ns p pc s = (r, s')"
  shows "fst s' j = fst s j"
  using assms
proof (induction ns arbitrary: pc s)
  case Nil
  then show ?case by simp
next
  case (Cons n ns)
  from Cons.prems(2) show ?case
  proof (cases rule: associate_children_Cons_cases)
    case (child_failed err)
    then show ?thesis using Cons.prems(1)[of n pc s "Inl err" s'] by simp
  next
    case (child_returned b s1)
    have a: "fst s1 j = fst s j" using Cons.prems(1)[of n pc s "Inr b" s1] child_returned(1) by simp
    have rest: "\<And>x pc s r s'. x \<in> set ns \<Longrightarrow> associate_nodes ev rt x p pc s = (r, s')
             \<Longrightarrow> fst s' j = fst s j"
      using Cons.prems(1) by (meson list.set_intros(2))
    have "fst s' j = fst s1 j"
      by (rule Cons.IH[OF rest child_returned(2)])
    with a show ?thesis by simp
  qed
qed

lemma associate_nodes_frame:
  "associate_nodes ev rt n p pc s = (r, s') \<Longrightarrow> j \<notin> nid ` set (subtree n) \<Longrightarrow> fst s' j = fst s j"
proof (induction n arbitrary: pc s r s')
  case (Node i c nl st ct en chs)
  let ?n = "Node i c nl st ct en chs"
  obtain m env where s: "s = (m, env)" by (cases s)
  have jn: "j \<noteq> nid ?n" and jc: "j \<notin> nid ` set (subtrees chs)" using Node.prems(2) by auto
  have sub: "\<And>x. x \<in> set chs \<Longrightarrow> nid ` set (subtree x) \<subseteq> nid ` set (subtrees chs)"
  proof -
    fix x show "x \<in> set chs \<Longrightarrow> nid ` set (subtree x) \<subseteq> nid ` set (subtrees chs)"
      by (induction chs) auto
  qed
  have ch: "fst s0' j = fst s0 j" if "associate_children ev rt chs p f s0 = (r0, s0')" for f s0 r0 s0'
  proof (rule associate_children_frame_aux[OF _ that])
    fix x pc s r s' assume "x \<in> set chs" "associate_nodes ev rt x p pc s = (r, s')"
    then show "fst s' j = fst s j" using Node.IH[of x pc s r s'] sub[of x] jc by blast
  qed
  have ap: "add_platform ?n p m j = m j" using jn by (simp add: add_platform_other)
  from Node.prems(1)[unfolded s] show ?case
  proof (cases rule: associate_nodes_cases)
    case (descended fname env1 r1)
    from ch[OF descended(4)[simplified]] ap show ?thesis by (simp add: s)
  qed (simp_all add: ap s)
qed

lemma associate_children_frame:
  assumes "associate_children ev rt ns p pc s = (r, s')" "j \<notin> nid ` set (subtrees ns)"
  shows "fst s' j = fst s j"
proof (rule associate_children_frame_aux[OF _ assms(1)])
  fix x pc s r s' assume "x \<in> set ns" "associate_nodes ev rt x p pc s = (r, s')"
  then show "fst s' j = fst s j"
    using associate_nodes_frame[of ev rt x p pc s r s' j] subtree_subtrees[of x ns] assms(2) by blast
qed

lemma associate_children_mono_aux:
  assumes "\<And>n pc s r s'. n \<in> set ns \<Longrightarrow> associate_nodes ev rt n p pc s = (r, s')
             \<Longrightarrow> assoc_le (fst s) (fst s')"
    and "associate_children ev rt ns p pc s = (r, s')"
  shows "assoc_le (fst s) (fst s')"
  using assms
proof (induction ns arbitrary: pc s)
  case Nil
  then show ?case by (simp add: assoc_le_refl)
next
  case (Cons n ns)
  from Cons.prems(2) show ?case
  proof (cases rule: associate_children_Cons_cases)
    case (child_failed err)
    then show ?thesis using Cons.prems(1)[of n pc s "Inl err" s'] by simp
  next
    case (child_returned b s1)
    have a: "assoc_le (fst s) (fst s1)"
      using Cons.prems(1)[of n pc s "Inr b" s1] child_returned(1) by simp
    have rest: "\<And>x pc s r s'. x \<in> set ns \<Longrightarrow> associate_nodes ev rt x p pc s = (r, s')
             \<Longrightarrow> assoc_le (fst s) (fst s')"
      using Cons.prems(1) by (meson list.set_intros(2))
    have "assoc_le (fst s1) (fst s')"
      by (rule Cons.IH[OF rest child_returned(2)])
    with a show ?thesis by (rule assoc_le_trans)
  qed
qed

lemma associate_nodes_mono:
  "associate_nodes ev rt n p pc s = (r, s') \<Longrightarrow> assoc_le (fst s) (fst s')"
proof (induction n arbitrary: pc s r s')
  case (Node i c nl st ct en chs)
  let ?n = "Node i c nl st ct en chs"
  obtain m env where s: "s = (m, env)" by (cases s)
  have ch: "assoc_le (fst s0) (fst s0')" if "associate_children ev rt chs p f s0 = (r0, s0')" for f s0 r0 s0'
    by (rule associate_children_mono_aux[OF _ that]) (use Node.IH in blast)
  have ap: "assoc_le m (add_platform ?n p m)" by (rule assoc_le_add_platform)
  from Node.prems(1)[unfolded s] show ?case
  proof (cases rule: associate_nodes_cases)
    case (descended fname env1 r1)
    from ch[OF descended(4)[simplified]] ap show ?thesis by (auto simp: s intro: assoc_le_trans)
  qed (simp_all add: ap s)
qed

lemma associate_children_mono:
  "associate_children ev rt ns p pc s = (r, s') \<Longrightarrow> assoc_le (fst s) (fst s')"
  using associate_children_mono_aux associate_nodes_mono by blast

lemma associate_nodes_records_self:
  assumes "associate_nodes ev rt n p pc (m, env) = (r, s')"
  shows "\<exists>a. fst s' (nid n) = Some a \<and> p \<in> platforms a"
proof -
  have own: "\<exists>a. add_platform n p m (nid n) = Some a \<and> p \<in> platforms a"
    by (simp add: add_platform_eq)
  from assms show ?thesis
  proof (cases rule: associate_nodes_cases)
    case (descended fname env1 r1)
    from associate_children_mono[OF descended(4)] own show ?thesis
      unfolding assoc_le_def by fastforce
  qed (simp_all add: own)
qed

text \<open>
  C8. Association records only grow: \<open>prepare_node\<close>, \<open>add_platform\<close>, a call of
  \<open>_associate_nodes\<close> and a whole \<open>TreeAssociator.walk\<close> (whether they return or raise)
  leave every existing record in place with all its platform names; \<open>get_association\<close>
  only reads the stored record (and the mapper takes the association maps as inputs
  and returns none, as the source never writes to them); adding a name makes the set
  that name together with the old set, adding a name that is present changes nothing,
  and adding a name twice is adding it once.
\<close>

theorem association_records_only_grow:
  "assoc_le m (prepare_node n m)
   \<and> assoc_le m (add_platform n p m)
   \<and> assoc_le m (fst (snd (associate_nodes ev rt n p pc (m, env))))
   \<and> assoc_le m (fst (snd (TreeAssociator_walk ev t p (m, env))))
   \<and> get_association m n = m (nid n)
   \<and> platforms (NodeAssociation_add_platform p a) = insert p (platforms a)
   \<and> (p \<in> platforms a \<longrightarrow> NodeAssociation_add_platform p a = a)
   \<and> NodeAssociation_add_platform p (NodeAssociation_add_platform p a)
       = NodeAssociation_add_platform p a
   \<and> add_platform n p (add_platform n p m) = add_platform n p m"
proof -
  have a: "assoc_le m (fst (snd (associate_nodes ev rt n p pc (m, env))))" for rt n pc
    using associate_nodes_mono[of ev rt n p pc "(m, env)"]
    by (cases "associate_nodes ev rt n p pc (m, env)") simp
  have w: "fst (snd (TreeAssociator_walk ev t p (m, env)))
           = fst (snd (associate_nodes ev (root t) (root t) p True (m, env)))"
    by (simp add: TreeAssociator_walk_def split: prod.splits sum.splits)
  have g: "get_association m n = m (nid n)"
    by (simp add: get_association_def)
  have i: "NodeAssociation_add_platform p (NodeAssociation_add_platform p a)
       = NodeAssociation_add_platform p a"
    by (simp add: NodeAssociation_add_platform_def)
  have j: "p \<in> platforms a \<longrightarrow> NodeAssociation_add_platform p a = a"
    by (simp add: NodeAssociation_add_platform_def)
  show ?thesis
    using a w g i j assoc_le_prepare_node[of m n] assoc_le_add_platform[of m n p]
      NodeAssociation_add_platform_platforms[of p a] add_platform_idem[of n p m]
    by simp
qed

theorem association_records_only_grow_witness:
  "(\<exists>a'. add_platform (Node 1 OtherNode (Some 2) False False False []) ''mac''
            [1 \<mapsto> \<lparr>platforms = {''linux''}\<rparr>] 1 = Some a'
          \<and> {''linux''} \<subseteq> platforms a')
   \<and> ''linux'' \<in> platforms \<lparr>platforms = {''linux''}\<rparr>
   \<and> NodeAssociation_add_platform ''linux'' \<lparr>platforms = {''linux''}\<rparr> = \<lparr>platforms = {''linux''}\<rparr>"
proof -
  let ?n = "Node 1 OtherNode (Some 2) False False False []"
  let ?a = "\<lparr>platforms = {''linux''}\<rparr>"
  let ?m = "[1 \<mapsto> ?a] :: NodeAssociationMap"
  note t = association_records_only_grow[where p = "''linux''" and a = ?a,
      THEN conjunct2, THEN conjunct2, THEN conjunct2, THEN conjunct2, THEN conjunct2,
      THEN conjunct2, THEN conjunct1]
  note u = association_records_only_grow[where m = ?m and n = ?n and p = "''mac''",
      THEN conjunct2, THEN conjunct1]
  have 2: "''linux'' \<in> platforms ?a" by simp
  have 3: "NodeAssociation_add_platform ''linux'' ?a = ?a"
    using t 2 by (rule mp)
  have "?m 1 = Some ?a" by simp
  from u[unfolded assoc_le_def, rule_format, OF this]
  have 1: "\<exists>a'. add_platform ?n ''mac'' ?m 1 = Some a' \<and> {''linux''} \<subseteq> platforms a'"
    by simp
  from 1 2 3 show ?thesis by (intro conjI)
qed

text \<open>
  C6. Unconditional recording on visit: whatever the flag \<open>process_children\<close>, the
  evaluation and its outcome (also a raised failure), after \<open>_associate_nodes\<close> the node
  has a record that holds the platform's name. When the flag is false the evaluation
  is not reached, and when the evaluation answers "not applicable" nothing follows it:
  in both cases the call returns \<open>False\<close> and the map is the old one with the platform
  recorded on the node alone, so the record of every descendant (a different object)
  is what it was.
\<close>

theorem unconditional_recording:
  "(\<exists>a. fst (snd (associate_nodes ev rt n p pc (m, env))) (nid n) = Some a \<and> p \<in> platforms a)
   \<and> (node_class rt = FileNode fname \<and> \<not> pc \<longrightarrow>
        associate_nodes ev rt n p pc (m, env) = (Inr False, add_platform n p m, env))
   \<and> (node_class rt = FileNode fname \<and> pc \<and> ev n p fname env = (Inr False, env1) \<longrightarrow>
        associate_nodes ev rt n p pc (m, env) = (Inr False, add_platform n p m, env1))
   \<and> (\<forall>d\<in>set (descendants n). nid d \<noteq> nid n \<longrightarrow> add_platform n p m (nid d) = m (nid d))"
proof -
  have 1: "\<exists>a. fst (snd (associate_nodes ev rt n p pc (m, env))) (nid n) = Some a \<and> p \<in> platforms a"
    using associate_nodes_records_self[of ev rt n p pc m env]
    by (cases "associate_nodes ev rt n p pc (m, env)") simp
  have 2: "node_class rt = FileNode fname \<and> \<not> pc \<longrightarrow>
        associate_nodes ev rt n p pc (m, env) = (Inr False, add_platform n p m, env)"
    by (cases n) (simp add: Let_def)
  have 3: "node_class rt = FileNode fname \<and> pc \<and> ev n p fname env = (Inr False, env1) \<longrightarrow>
        associate_nodes ev rt n p pc (m, env) = (Inr False, add_platform n p m, env1)"
    by (cases n) (simp add: Let_def)
  have 4: "\<forall>d\<in>set (descendants n). nid d \<noteq> nid n \<longrightarrow> add_platform n p m (nid d) = m (nid d)"
    by (simp add: add_platform_other)
  from 1 2 3 4 show ?thesis by blast
qed

theorem unconditional_recording_witness:
  "(\<exists>a. fst (snd (associate_nodes (\<lambda>n p f e. (Inr False, e)) (Node 0 (FileNode ''a.c'') None False False False [])
        (Node 1 OtherNode None True False False [Node 2 OtherNode (Some 5) False False False []])
        ''p2'' True (Map.empty, ()))) 1 = Some a \<and> ''p2'' \<in> platforms a)
   \<and> associate_nodes (\<lambda>n p f e. (Inr False, e)) (Node 0 (FileNode ''a.c'') None False False False [])
        (Node 1 OtherNode None True False False [Node 2 OtherNode (Some 5) False False False []])
        ''p2'' True (Map.empty, ())
       = (Inr False, add_platform (Node 1 OtherNode None True False False [Node 2 OtherNode (Some 5) False False False []]) ''p2'' Map.empty, ())
   \<and> add_platform (Node 1 OtherNode None True False False [Node 2 OtherNode (Some 5) False False False []]) ''p2'' Map.empty 2 = None"
proof -
  let ?ev = "(\<lambda>n p f e. (Inr False, e)) :: unit evaluator"
  let ?rt = "Node 0 (FileNode ''a.c'') None False False False []"
  let ?c = "Node 2 OtherNode (Some 5) False False False []"
  let ?n = "Node 1 OtherNode None True False False [?c]"
  note t = unconditional_recording[where ev = ?ev and rt = ?rt and n = ?n and p = "''p2''"
      and pc = True and m = Map.empty and env = "()" and fname = "''a.c''" and ?env1.0 = "()"]
  have h: "node_class ?rt = FileNode ''a.c'' \<and> True \<and> ?ev ?n ''p2'' ''a.c'' () = (Inr False, ())"
    by simp
  have d: "?c \<in> set (descendants ?n)" "nid ?c \<noteq> nid ?n" by (simp_all add: descendants_def)
  from t h d show ?thesis by auto
qed

subsection \<open>Branch groups\<close>

lemma associate_children_append:
  "associate_children ev rt (xs @ ys) p f s =
     (case associate_children ev rt xs p f s of
        (Inl err, s1) \<Rightarrow> (Inl err, s1)
      | (Inr f1, s1) \<Rightarrow> associate_children ev rt ys p f1 s1)"
proof (induction xs arbitrary: f s)
  case Nil
  show ?case by simp
next
  case (Cons x xs)
  show ?case
    by (cases "associate_nodes ev rt x p f s") (auto simp: Cons.IH split: sum.splits)
qed

lemma associate_nodes_blocked:
  "node_class rt = FileNode fname \<Longrightarrow>
   associate_nodes ev rt n p False (m, env) = (Inr False, add_platform n p m, env)"
  by (cases n) (simp add: Let_def)

lemma associate_children_blocked:
  "node_class rt = FileNode fname \<Longrightarrow> \<forall>a\<in>set xs. \<not> is_end_node a \<Longrightarrow>
   associate_children ev rt xs p False (m, env) = (Inr False, record_only xs p m, env)"
  by (induction xs arbitrary: m) (simp_all add: associate_nodes_blocked)

lemma associate_children_records_each:
  assumes "associate_children ev rt ns p f s = (r, s')" and "r = Inr f'" and "c \<in> set ns"
  shows "\<exists>a. fst s' (nid c) = Some a \<and> p \<in> platforms a"
  using assms
proof (induction ns arbitrary: f s)
  case Nil
  then show ?case by simp
next
  case (Cons x xs)
  from Cons.prems(1) show ?case
  proof (cases rule: associate_children_Cons_cases)
    case (child_failed err)
    with Cons.prems(2) show ?thesis by simp
  next
    case (child_returned b s1)
    show ?thesis
    proof (cases "c = x")
      case True
      obtain m env where s: "s = (m, env)" by (cases s)
      from associate_nodes_records_self[OF child_returned(1)[unfolded s]]
      obtain a where a: "fst s1 (nid c) = Some a" "p \<in> platforms a" using True by blast
      from associate_children_mono[OF child_returned(2)] a show ?thesis
        unfolding assoc_le_def by fastforce
    next
      case False
      with Cons.prems(3) have "c \<in> set xs" by simp
      from Cons.IH[OF child_returned(2) Cons.prems(2) this] show ?thesis .
    qed
  qed
qed

lemma associate_nodes_applicable:
  assumes "node_class rt = FileNode fname" and "ev n p fname env = (Inr True, env1)"
  shows "associate_nodes ev rt n p True (m, env) =
     (case associate_children ev rt (children n) p True (add_platform n p m, env1) of
        (Inl err, s) \<Rightarrow> (Inl err, s)
      | (Inr f, s) \<Rightarrow> (Inr True, s))"
  using assms by (cases n) (simp add: Let_def)

lemma recorded_kept:
  assumes "assoc_le m m'" and "m i = Some a" and "p \<in> platforms a"
  shows "\<exists>a'. m' i = Some a' \<and> p \<in> platforms a'"
proof -
  from assms(1,2) obtain a' where "m' i = Some a'" "platforms a \<subseteq> platforms a'"
    unfolding assoc_le_def by blast
  with assms(3) show ?thesis by blast
qed

lemma visited_kept: "assoc_le m m' \<Longrightarrow> visited p m d \<Longrightarrow> visited p m' d"
  unfolding visited_def using recorded_kept by blast

lemma plain_step:
  assumes "plain ev p fname x"
  shows "(if b \<and> (is_start_node x \<or> is_cont_node x) then False
            else if \<not> True \<and> is_end_node x then True else True) = True"
  using assms by (simp add: plain_def)


lemma associate_children_plain_aux:
  assumes node: "\<And>x s b s'. x \<in> set ns \<Longrightarrow> \<forall>y\<in>set (subtree x). plain ev p fname y \<Longrightarrow>
             associate_nodes ev rt x p True s = (Inr b, s') \<Longrightarrow>
             b \<and> (\<forall>d\<in>set (subtree x). visited p (fst s') d)"
    and pl: "\<forall>y\<in>set (subtrees ns). plain ev p fname y"
    and run: "associate_children ev rt ns p True s = (Inr f, s')"
  shows "f \<and> (\<forall>d\<in>set (subtrees ns). visited p (fst s') d)"
  using assms
proof (induction ns arbitrary: s)
  case Nil
  then show ?case by simp
next
  case (Cons x xs)
  have px: "\<forall>y\<in>set (subtree x). plain ev p fname y"
    using Cons.prems(2) by simp
  have pxs: "\<forall>y\<in>set (subtrees xs). plain ev p fname y"
    using Cons.prems(2) by simp
  have "x \<in> set (subtree x)" by (cases x) simp
  with px have x_plain: "plain ev p fname x" by blast
  from Cons.prems(3) obtain b s1 where
    rx: "associate_nodes ev rt x p True s = (Inr b, s1)" and
    rr: "associate_children ev rt xs p
           (if b \<and> (is_start_node x \<or> is_cont_node x) then False
            else if \<not> True \<and> is_end_node x then True else True) s1 = (Inr f, s')"
  proof (cases rule: associate_children_Cons_cases)
    case (child_failed err)
    then show ?thesis by simp
  next
    case (child_returned b s1)
    then show ?thesis by (rule that)
  qed
  have xin: "x \<in> set (x # xs)" by simp
  from Cons.prems(1)[OF xin px rx] have b: b
    and vx: "\<forall>d\<in>set (subtree x). visited p (fst s1) d" by blast+
  from rr have rr': "associate_children ev rt xs p True s1 = (Inr f, s')"
    unfolding plain_step[OF x_plain] .
  have nodes: "c \<and> (\<forall>d\<in>set (subtree y). visited p (fst u') d)"
    if "y \<in> set xs" "\<forall>z\<in>set (subtree y). plain ev p fname z"
       "associate_nodes ev rt y p True u = (Inr c, u')" for y u c u'
  proof -
    from that(1) have "y \<in> set (x # xs)" by simp
    from Cons.prems(1)[OF this that(2,3)] show ?thesis .
  qed
  have "f \<and> (\<forall>d\<in>set (subtrees xs). visited p (fst s') d)"
    by (rule Cons.IH[OF nodes pxs rr'])
  then have f: f
    and vxs: "\<forall>d\<in>set (subtrees xs). visited p (fst s') d" by blast+
  have le: "assoc_le (fst s1) (fst s')" by (rule associate_children_mono[OF rr'])
  have vx': "\<forall>d\<in>set (subtree x). visited p (fst s') d"
    using vx visited_kept[OF le] by blast
  have "\<forall>d\<in>set (subtrees (x # xs)). visited p (fst s') d"
    using vx' vxs by simp blast
  with f show ?case by blast
qed


lemma associate_nodes_plain:
  assumes fn: "node_class rt = FileNode fname"
  shows "\<forall>y\<in>set (subtree n). plain ev p fname y \<Longrightarrow>
         associate_nodes ev rt n p True s = (Inr b, s') \<Longrightarrow>
         b \<and> (\<forall>d\<in>set (subtree n). visited p (fst s') d)"
proof (induction n arbitrary: s b s')
  case (Node i c nl st ct en chs)
  let ?n = "Node i c nl st ct en chs"
  obtain m env where s: "s = (m, env)" by (cases s)
  have pn: "plain ev p fname ?n" using Node.prems(1) by simp
  have pc: "\<forall>y\<in>set (subtrees chs). plain ev p fname y" using Node.prems(1) by simp
  from pn obtain env1 where e: "ev ?n p fname env = (Inr True, env1)"
    unfolding plain_def by blast
  note app = associate_nodes_applicable[where ev = ev and n = ?n and p = p and env = env and m = m,
      OF fn e]
  have run: "associate_nodes ev rt ?n p True (m, env) = (Inr b, s')"
    using Node.prems(2) by (simp only: s)
  obtain r1 s1 where ch0: "associate_children ev rt (children ?n) p True (add_platform ?n p m, env1) = (r1, s1)"
    by (cases "associate_children ev rt (children ?n) p True (add_platform ?n p m, env1)")
  from run[unfolded app ch0] obtain f where r1: "r1 = Inr f" and s1: "s1 = s'" and b: b
    by (cases r1) simp_all
  have ch: "associate_children ev rt chs p True (add_platform ?n p m, env1) = (Inr f, s')"
    using ch0 r1 s1 by simp
  have sub: "\<And>x. x \<in> set chs \<Longrightarrow> set (subtree x) \<subseteq> set (subtrees chs)"
    by (rule subtree_subtrees)
  have kids: "f \<and> (\<forall>d\<in>set (subtrees chs). visited p (fst s') d)"
  proof (rule associate_children_plain_aux[OF _ pc ch])
    fix x u c u'
    assume "x \<in> set chs" "\<forall>y\<in>set (subtree x). plain ev p fname y"
      "associate_nodes ev rt x p True u = (Inr c, u')"
    then show "c \<and> (\<forall>d\<in>set (subtree x). visited p (fst u') d)"
      by (rule Node.IH)
  qed
  have self: "visited p (fst s') ?n"
    unfolding visited_def by (rule associate_nodes_records_self[OF run])
  from kids self b show ?case by simp
qed

lemma associate_children_plain:
  assumes "node_class rt = FileNode fname" and "\<forall>y\<in>set (subtrees ns). plain ev p fname y"
    and "associate_children ev rt ns p True s = (Inr f, s')"
  shows "f \<and> (\<forall>d\<in>set (subtrees ns). visited p (fst s') d)"
proof (rule associate_children_plain_aux[OF _ assms(2,3)])
  fix x u c u'
  assume "x \<in> set ns" "\<forall>y\<in>set (subtree x). plain ev p fname y"
    "associate_nodes ev rt x p True u = (Inr c, u')"
  then show "c \<and> (\<forall>d\<in>set (subtree x). visited p (fst u') d)"
    using associate_nodes_plain[OF assms(1)] by blast
qed

lemma group_local:
  assumes fn: "node_class rt = FileNode fname"
    and start: "is_start_node first"
    and alts: "\<forall>a\<in>set alternatives. \<not> is_end_node a" and ending: "is_end_node ending"
    and first: "associate_nodes ev rt first p True s2 = (Inr True, s3)"
  shows "associate_children ev rt (first # alternatives @ ending # after) p True s2
     = associate_children ev rt after p True
         (record_only (alternatives @ [ending]) p (fst s3), snd s3)"
proof -
  obtain m3 e3 where s3: "s3 = (m3, e3)" by (cases s3)
  have a: "associate_children ev rt alternatives p False (m3, e3)
             = (Inr False, record_only alternatives p m3, e3)"
    by (rule associate_children_blocked[OF fn alts])
  have e: "associate_nodes ev rt ending p False (record_only alternatives p m3, e3)
             = (Inr False, add_platform ending p (record_only alternatives p m3), e3)"
    by (rule associate_nodes_blocked[OF fn])
  have "associate_children ev rt (first # alternatives @ ending # after) p True s2
          = associate_children ev rt (alternatives @ ending # after) p False (m3, e3)"
    using first start by (simp add: s3)
  also have "\<dots> = associate_children ev rt (ending # after) p False (record_only alternatives p m3, e3)"
    by (simp add: associate_children_append a)
  also have "\<dots> = associate_children ev rt after p True
                      (add_platform ending p (record_only alternatives p m3), e3)"
    using ending by (simp add: e)
  finally show ?thesis by (simp add: s3 record_only_append)
qed

lemma distinct_subtrees_split:
  assumes "distinct (map nid (subtrees (xs @ y # zs)))"
  shows "distinct (map nid (subtree y))"
    and "nid ` set (subtree y) \<inter> nid ` set (subtrees xs) = {}"
    and "nid ` set (subtree y) \<inter> nid ` set (subtrees zs) = {}"
  using assms by (auto simp: subtrees_append)

lemma invoked_trans:
  "invoked ev rt p A B \<Longrightarrow> invoked ev rt p B C \<Longrightarrow> invoked ev rt p A C"
  by (induction rule: invoked.induct) (auto intro: invoked_below)

lemma invoked_child:
  assumes "node_class rt = FileNode fname" and "ev n p fname env = (Inr True, env1)"
    and "children n = before @ child # after"
    and "associate_children ev rt before p True (add_platform n p m, env1) = (Inr flag, s1)"
  shows "invoked ev rt p (n, True, m, env) (child, flag, s1)"
  using assms invoked_here by (rule invoked_below)

lemma invoked_run:
  assumes "invoked ev rt p A B"
    and "associate_nodes ev rt (fst A) p (fst (snd A)) (snd (snd A)) = (Inr rA, sA')"
    and "distinct (map nid (subtree (fst A)))"
  shows "\<exists>rB sB'. associate_nodes ev rt (fst B) p (fst (snd B)) (snd (snd B)) = (Inr rB, sB')
           \<and> assoc_le (fst sB') (fst sA')
           \<and> (\<forall>j\<in>nid ` set (subtree (fst B)).
                 fst (snd (snd B)) j = fst (snd (snd A)) j \<and> fst sA' j = fst sB' j)
           \<and> distinct (map nid (subtree (fst B)))
           \<and> set (subtree (fst B)) \<subseteq> set (subtree (fst A))"
  using assms
proof (induction arbitrary: rA sA' rule: invoked.induct)
  case (invoked_here call)
  then show ?case by (auto simp: assoc_le_refl)
next
  case (invoked_below fname n env env1 before child after m flag s1 call)
  let ?m1 = "add_platform n p m"
  note app = associate_nodes_applicable[where ev = ev and n = n and p = p and env = env and m = m,
      OF invoked_below.hyps(1,2)]
  from invoked_below.prems(1)
  have run: "associate_nodes ev rt n p True (m, env) = (Inr rA, sA')" by simp
  obtain r1 where ch: "associate_children ev rt (children n) p True (?m1, env1) = (r1, sA')"
    using run unfolding app
    by (auto split: prod.splits sum.splits)
  have r1: "\<exists>f. r1 = Inr f"
    using run ch unfolding app
    by (auto split: sum.splits)
  then obtain f1 where f1: "r1 = Inr f1" by blast
  have rest: "associate_children ev rt (child # after) p flag s1 = (Inr f1, sA')"
    using ch unfolding invoked_below.hyps(3) associate_children_append invoked_below.hyps(4) f1
    by simp
  from rest obtain b sC where
    c: "associate_nodes ev rt child p flag s1 = (Inr b, sC)" and
    af: "associate_children ev rt after p
           (if b \<and> (is_start_node child \<or> is_cont_node child) then False
            else if \<not> flag \<and> is_end_node child then True else flag) sC = (Inr f1, sA')"
    by (cases rule: associate_children_Cons_cases) auto
  have sub: "subtree n = n # subtrees (before @ child # after)"
    using invoked_below.hyps(3) by (cases n) simp
  from invoked_below.prems(2) have dn: "distinct (map nid (subtrees (before @ child # after)))"
    and hn: "nid n \<notin> nid ` set (subtrees (before @ child # after))"
    by (simp_all add: sub)
  note ds = distinct_subtrees_split[OF dn]
  have hc: "nid n \<notin> nid ` set (subtree child)" using hn by (auto simp: subtrees_append)
  from invoked_below.IH[of b sC] c ds(1)
  obtain rB sB' where
    B: "associate_nodes ev rt (fst call) p (fst (snd call)) (snd (snd call)) = (Inr rB, sB')"
    and le: "assoc_le (fst sB') (fst sC)"
    and fr: "\<forall>j\<in>nid ` set (subtree (fst call)).
               fst (snd (snd call)) j = fst s1 j \<and> fst sC j = fst sB' j"
    and dB: "distinct (map nid (subtree (fst call)))"
    and sB: "set (subtree (fst call)) \<subseteq> set (subtree child)"
    by auto
  from sB have subB: "nid ` set (subtree (fst call)) \<subseteq> nid ` set (subtree child)"
    by blast
  have sN: "set (subtree child) \<subseteq> set (subtree n)"
    by (auto simp: sub subtrees_append)
  have le2: "assoc_le (fst sB') (fst sA')"
    using le associate_children_mono[OF af] by (rule assoc_le_trans)
  have fr2: "fst (snd (snd call)) j = m j \<and> fst sA' j = fst sB' j"
    if j: "j \<in> nid ` set (subtree (fst call))" for j
  proof -
    from j subB have jc: "j \<in> nid ` set (subtree child)" by blast
    with ds have jb: "j \<notin> nid ` set (subtrees before)" and ja: "j \<notin> nid ` set (subtrees after)"
      by blast+
    from jc hc have jn: "j \<noteq> nid n" by blast
    have 1: "fst s1 j = ?m1 j"
      using associate_children_frame[OF invoked_below.hyps(4) jb] by simp
    have 2: "?m1 j = m j" using jn by (simp add: add_platform_other)
    have 3: "fst sA' j = fst sC j" using associate_children_frame[OF af ja] .
    from fr j have "fst (snd (snd call)) j = fst s1 j \<and> fst sC j = fst sB' j" by blast
    with 1 2 3 show ?thesis by simp
  qed
  from B le2 fr2 dB sB sN show ?case by auto
qed

lemma descendant_not_root:
  assumes "distinct (map nid (subtrees xs))" and "b \<in> set xs" and "d \<in> set (descendants b)"
  shows "nid d \<notin> nid ` set xs"
  using assms
proof (induction xs)
  case Nil
  then show ?case by simp
next
  case (Cons x xs)
  have st: "subtrees (x # xs) = x # descendants x @ subtrees xs"
    by (simp add: subtree_eq)
  have roots: "set xs \<subseteq> set (subtrees xs)"
    using subtree_subtrees[of _ xs] nid_in_subtree by (auto simp: subtree_eq)
  from Cons.prems(1) have "distinct (map nid (x # descendants x @ subtrees xs))"
    unfolding st .
  then have dx: "distinct (map nid (subtrees xs))"
    and nx: "nid x \<notin> nid ` set (descendants x)" "nid x \<notin> nid ` set (subtrees xs)"
    and dj: "nid ` set (descendants x) \<inter> nid ` set (subtrees xs) = {}"
    by auto
  show ?case
  proof (cases "b = x")
    case True
    with Cons.prems(3) have d: "d \<in> set (descendants x)" by simp
    with nx have "nid d \<noteq> nid x" by (metis imageI)
    moreover from d dj roots have "nid d \<notin> nid ` set xs" by blast
    ultimately show ?thesis by simp
  next
    case False
    with Cons.prems(2) have b: "b \<in> set xs" by simp
    from Cons.IH[OF dx b Cons.prems(3)] have 1: "nid d \<notin> nid ` set xs" .
    have "set (descendants b) \<subseteq> set (subtrees xs)"
      using subtree_subtrees[OF b] by (auto simp: subtree_eq)
    with Cons.prems(3) have "nid d \<in> nid ` set (subtrees xs)" by blast
    with nx have "nid d \<noteq> nid x" by metis
    with 1 show ?thesis by simp
  qed
qed

text \<open>
  C1. Mutual exclusion of branch groups. In a pass of \<open>TreeAssociator.walk\<close> that returns,
  over a tree whose node objects are all different, take any call of
  \<open>_associate_nodes\<close> on a node (the parent) that the pass makes with the flag true and
  whose evaluation is applicable; let its children be some siblings, a "starts group"
  node, alternatives none of which is an "ends group" node, an "ends group" node, and
  the siblings after it; let the loop reach the group with \<open>process_child\<close> true and let
  the evaluation report the first branch applicable. Then at the end of the pass the
  platform is recorded on every child of the first branch, and on every descendant of
  it when none of them starts or continues a group and each is always applicable (as
  code nodes are); the record of every
  descendant of every alternative is what it was before the pass; and from the first
  branch on, the loop does what it does on the siblings after the group with
  \<open>process_child\<close> true, once the first branch has been processed and the platform
  recorded (and nothing else done) on the alternatives and the "ends group" node.
\<close>

theorem mutual_exclusion:
  assumes walk: "TreeAssociator_walk ev t pname (m0, env0) = (Inr (), m', env')"
    and distinct: "distinct (map nid (subtree (root t)))"
    and fname: "node_class (root t) = FileNode fname"
    and reach: "invoked ev (root t) pname (root t, True, m0, env0) (parent, True, m, env)"
    and applicable: "ev parent pname fname env = (Inr True, env1)"
    and shape: "children parent = before @ first # alternatives @ ending # after"
    and pre: "associate_children ev (root t) before pname True (add_platform parent pname m, env1)
                = (Inr True, s2)"
    and start: "is_start_node first"
    and taken: "ev first pname fname (snd s2) = (Inr True, env3)"
    and alts: "\<forall>a\<in>set alternatives. \<not> is_end_node a"
    and ending: "is_end_node ending"
  shows "(\<forall>c\<in>set (children first). visited pname m' c)
       \<and> ((\<forall>x\<in>set (descendants first). plain ev pname fname x) \<longrightarrow>
            (\<forall>d\<in>set (descendants first). visited pname m' d))
       \<and> (\<forall>b\<in>set alternatives. \<forall>d\<in>set (descendants b). m' (nid d) = m0 (nid d))
       \<and> (\<exists>s3. associate_nodes ev (root t) first pname True s2 = (Inr True, s3)
              \<and> associate_children ev (root t) (first # alternatives @ ending # after) pname True s2
                  = associate_children ev (root t) after pname True
                      (record_only (alternatives @ [ending]) pname (fst s3), snd s3))"
proof -
  let ?rt = "root t"
  let ?group = "first # alternatives @ ending # after"
  from walk obtain r0 where
    run0: "associate_nodes ev ?rt ?rt pname True (m0, env0) = (Inr r0, m', env')"
    by (auto simp: TreeAssociator_walk_def split: prod.splits sum.splits)
  from invoked_run[OF reach, of r0 "(m', env')"] run0 distinct
  obtain rP sP where
    runP: "associate_nodes ev ?rt parent pname True (m, env) = (Inr rP, sP)"
    and leP: "assoc_le (fst sP) m'"
    and frP: "\<forall>j\<in>nid ` set (subtree parent). m j = m0 j \<and> m' j = fst sP j"
    and dP: "distinct (map nid (subtree parent))"
    by auto
  note appP = associate_nodes_applicable[where ev = ev and n = parent and p = pname and env = env
      and m = m, OF fname applicable]
  obtain fP where
    chP: "associate_children ev ?rt (children parent) pname True (add_platform parent pname m, env1)
            = (Inr fP, sP)"
    using runP unfolding appP by (auto split: prod.splits sum.splits)
  have grp: "associate_children ev ?rt ?group pname True s2 = (Inr fP, sP)"
    using chP unfolding shape associate_children_append pre by simp
  obtain m2 e2 where s2: "s2 = (m2, e2)" by (cases s2)
  note appF = associate_nodes_applicable[where ev = ev and n = first and p = pname and env = e2
      and m = m2, OF fname taken[unfolded s2 snd_conv]]
  obtain rF s3 where runF0: "associate_nodes ev ?rt first pname True s2 = (rF, s3)"
    by (cases "associate_nodes ev ?rt first pname True s2")
  have rF: "rF = Inr True"
  proof (cases rF)
    case (Inl err)
    with grp runF0 show ?thesis by simp
  next
    case (Inr b)
    with runF0 show ?thesis unfolding s2 appF by (auto split: prod.splits sum.splits)
  qed
  have runF: "associate_nodes ev ?rt first pname True s2 = (Inr True, s3)"
    using runF0 rF by simp
  note loc = group_local[OF fname start alts ending runF, of after]
  let ?s4 = "(record_only (alternatives @ [ending]) pname (fst s3), snd s3)"
  from grp loc have aft: "associate_children ev ?rt after pname True ?s4 = (Inr fP, sP)"
    by simp
  \<comment> \<open>the children of the first branch\<close>
  obtain fF where chF: "associate_children ev ?rt (children first) pname True
      (add_platform first pname m2, env3) = (Inr fF, s3)"
    using runF unfolding s2 appF by (auto split: prod.splits sum.splits)
  have le34: "assoc_le (fst s3) (fst sP)"
    using assoc_le_record_only[of "fst s3" "alternatives @ [ending]" pname]
      associate_children_mono[OF aft] by (auto intro: assoc_le_trans)
  have le3: "assoc_le (fst s3) m'" using le34 leP by (rule assoc_le_trans)
  have 1: "visited pname m' c" if "c \<in> set (children first)" for c
  proof -
    from associate_children_records_each[OF chF refl that]
    have "visited pname (fst s3) c" unfolding visited_def .
    with le3 show ?thesis by (rule visited_kept)
  qed
  have deep: "\<forall>d\<in>set (descendants first). visited pname m' d"
    if pl: "\<forall>x\<in>set (descendants first). plain ev pname fname x"
  proof -
    from pl have "\<forall>x\<in>set (subtrees (children first)). plain ev pname fname x"
      by (simp only: descendants_def)
    from associate_children_plain[OF fname this chF]
    have "\<forall>d\<in>set (subtrees (children first)). visited pname (fst s3) d"
      by (rule conjunct2)
    then have "\<forall>d\<in>set (descendants first). visited pname (fst s3) d"
      by (simp only: descendants_def)
    with visited_kept[OF le3] show ?thesis by blast
  qed
  \<comment> \<open>the descendants of the alternatives\<close>
  have sub: "subtree parent = parent # subtrees (before @ first # alternatives @ ending # after)"
    using shape by (cases parent) simp
  have exp: "subtrees (before @ first # alternatives @ ending # after)
      = subtrees before @ subtree first @ subtrees alternatives @ subtree ending @ subtrees after"
    by (simp add: subtrees_append)
  from dP have dA: "distinct (map nid (subtrees alternatives))"
    by (simp add: sub exp)
  have 2: "m' (nid d) = m0 (nid d)" if b: "b \<in> set alternatives" and d: "d \<in> set (descendants b)" for b d
  proof -
    have "set (descendants b) \<subseteq> set (subtrees alternatives)"
      using subtree_subtrees[OF b] by (auto simp: subtree_eq)
    with d have dalt: "d \<in> set (subtrees alternatives)" by blast
    then have dpar: "nid d \<in> nid ` set (subtree parent)" by (simp add: sub exp)
    from dalt have ia: "nid d \<in> nid ` set (subtrees alternatives)" by blast
    have exp3: "subtrees (before @ first # alternatives @ ending # after)
        = subtrees (before @ [first]) @ subtrees alternatives @ subtrees (ending # after)"
      by (simp add: subtrees_append)
    from dP have hP: "nid parent \<notin> nid ` set (subtrees alternatives)"
      by (simp add: sub exp)
    from dP have dS: "distinct (map nid (subtrees (before @ [first]) @ subtrees alternatives
                 @ subtrees (ending # after)))"
      unfolding sub exp3 by simp
    have x: "nid ` set (subtrees (before @ [first])) \<inter> nid ` set (subtrees alternatives) = {}"
      using dS by (simp only: map_append distinct_append set_append set_map) blast
    have z: "nid ` set (subtrees alternatives) \<inter> nid ` set (subtrees (ending # after)) = {}"
      using dS by (simp only: map_append distinct_append set_append set_map)
    have xs: "nid ` set (subtrees (before @ [first]))
                = nid ` set (subtrees before) \<union> nid ` set (subtree first)"
      by (simp add: subtrees_append image_Un)
    have zs: "nid ` set (subtrees (ending # after))
                = nid ` set (subtree ending) \<union> nid ` set (subtrees after)"
      by (simp add: image_Un)
    from ia hP have np: "nid d \<noteq> nid parent" by metis
    from ia x xs have nb: "nid d \<notin> nid ` set (subtrees before)"
      and nf: "nid d \<notin> nid ` set (subtree first)" by blast+
    from ia z zs have ne: "nid d \<notin> nid ` set (subtree ending)"
      and na: "nid d \<notin> nid ` set (subtrees after)" by blast+
    from ne nid_in_subtree[of ending] have ne': "nid d \<noteq> nid ending" by metis
    from descendant_not_root[OF dA b d] ne'
    have nr: "nid d \<notin> nid ` set (alternatives @ [ending])" by simp
    have "m' (nid d) = fst sP (nid d)" using frP dpar by blast
    also have "\<dots> = fst ?s4 (nid d)" by (rule associate_children_frame[OF aft na])
    also have "\<dots> = fst s3 (nid d)" using record_only_other[OF nr] by simp
    also have "\<dots> = fst s2 (nid d)" by (rule associate_nodes_frame[OF runF nf])
    also have "\<dots> = add_platform parent pname m (nid d)"
      using associate_children_frame[OF pre nb] by simp
    also have "\<dots> = m (nid d)" using np by (simp add: add_platform_other)
    also have "\<dots> = m0 (nid d)" using frP dpar by blast
    finally show ?thesis .
  qed
  from 1 deep 2 runF loc show ?thesis by blast
qed

theorem mutual_exclusion_witness:
  "fst (TreeAssociator_walk scenario_eval scenario_tree ''p1'' (NodeAssociationMap_init, ())) = Inr ()
   \<and> (\<exists>a. fst (snd (TreeAssociator_walk scenario_eval scenario_tree ''p1''
               (NodeAssociationMap_init, ()))) 3 = Some a \<and> ''p1'' \<in> platforms a)
   \<and> fst (snd (TreeAssociator_walk scenario_eval scenario_tree ''p1''
               (NodeAssociationMap_init, ()))) 5 = None"
proof -
  let ?w = "TreeAssociator_walk scenario_eval scenario_tree ''p1'' (NodeAssociationMap_init, ())"
  let ?rt = "root scenario_tree"
  let ?n1 = "Node 1 OtherNode (Some 3) False False False []"
  let ?n3 = "Node 3 OtherNode (Some 5) False False False []"
  let ?n5 = "Node 5 OtherNode (Some 2) False False False []"
  let ?first = "Node 2 OtherNode None True False False [?n3]"
  let ?alt = "Node 4 OtherNode None False True False [?n5]"
  let ?ending = "Node 6 OtherNode None False False True []"
  let ?n7 = "Node 7 OtherNode (Some 1) False False False []"
  let ?pre = "associate_children scenario_eval ?rt [?n1] ''p1'' True
                (add_platform ?rt ''p1'' NodeAssociationMap_init, ())"
  have w: "fst ?w = Inr ()" by code_simp
  have walk: "?w = (Inr (), fst (snd ?w), snd (snd ?w))"
    using w by (metis prod.collapse)
  have distinct: "distinct (map nid (subtree ?rt))" by code_simp
  have fname: "node_class ?rt = FileNode ''a.c''" by (simp add: scenario_tree_def)
  have reach: "invoked scenario_eval ?rt ''p1'' (?rt, True, NodeAssociationMap_init, ())
                 (?rt, True, NodeAssociationMap_init, ())"
    by (rule invoked_here)
  have applicable: "scenario_eval ?rt ''p1'' ''a.c'' () = (Inr True, ())"
    by (simp add: scenario_eval_def scenario_tree_def)
  have shape: "children ?rt = [?n1] @ ?first # [?alt] @ ?ending # [?n7]"
    by (simp add: scenario_tree_def)
  have p: "fst ?pre = Inr True" by code_simp
  have pre: "?pre = (Inr True, snd ?pre)"
    using p by (metis prod.collapse)
  have start: "is_start_node ?first" by simp
  have taken: "scenario_eval ?first ''p1'' ''a.c'' (snd (snd ?pre)) = (Inr True, snd (snd ?pre))"
    by (simp add: scenario_eval_def)
  have alts: "\<forall>a\<in>set [?alt]. \<not> is_end_node a" by simp
  have ending: "is_end_node ?ending" by simp
  note t = mutual_exclusion[OF walk distinct fname reach applicable shape pre start taken alts ending]
  have c: "?n3 \<in> set (children ?first)" by simp
  have d: "?alt \<in> set [?alt]" "?n5 \<in> set (descendants ?alt)" by (simp_all add: descendants_def)
  have pl: "\<forall>x\<in>set (descendants ?first). plain scenario_eval ''p1'' ''a.c'' x"
    by (simp add: descendants_def plain_def scenario_eval_def)
  have c': "?n3 \<in> set (descendants ?first)" by (simp add: descendants_def)
  from t pl c' have "visited ''p1'' (fst (snd ?w)) ?n3" by blast
  moreover from t c have "visited ''p1'' (fst (snd ?w)) ?n3" by blast
  ultimately have 1: "\<exists>a. fst (snd ?w) (nid ?n3) = Some a \<and> ''p1'' \<in> platforms a"
    unfolding visited_def by blast
  from t d have 2: "fst (snd ?w) (nid ?n5) = NodeAssociationMap_init (nid ?n5)" by blast
  from w 1 2 show ?thesis by (simp add: NodeAssociationMap_init_def)
qed

section \<open>Properties of the mapper\<close>

lemma update_update_same: "AList.update k v (AList.update k w al) = AList.update k v al"
  by (induction al) auto

lemma accumulate_eq:
  "accumulate S fn n self =
     self\<lparr>line_map := dd_add S n (line_map self),
          file_map := AList.update S (dd_add fn n (per_file (file_map self) S)) (file_map self)\<rparr>"
proof -
  have a: "dd_add fn n (AList.update fn 0 d) = dd_add fn n d" if "map_of d fn = None" for d
    using that by (simp add: dd_add_def dd_get_def update_update_same AList.update_conv')
  have b: "dd_add fn n [(fn, 0)] = dd_add fn n []"
    by (simp add: dd_add_def dd_get_def)
  show ?thesis
    by (cases "map_of (file_map self) S")
       (auto simp: accumulate_def Let_def per_file_def a b update_update_same AList.update_conv'
          split: option.splits)
qed

lemma codebase_files_accumulate [simp]: "codebase_files (accumulate S fn n self) = codebase_files self"
  by (simp add: accumulate_eq)

lemma codebase_files_accumulate_all [simp]: "codebase_files (accumulate_all cs self) = codebase_files self"
  by (induction cs self rule: accumulate_all.induct) simp_all

lemma accumulate_all_append: "accumulate_all (xs @ ys) self = accumulate_all ys (accumulate_all xs self)"
  by (induction xs self rule: accumulate_all.induct) simp_all

lemma map_children_contributions_aux:
  assumes "\<And>n self. n \<in> set ns \<Longrightarrow>
     map_node fn n amap self = accumulate_all (contributions (codebase_files self) fn n amap) self"
  shows "map_children fn ns amap self = accumulate_all (contributions_list (codebase_files self) fn ns amap) self"
  using assms by (induction ns arbitrary: self) (simp_all add: accumulate_all_append)

lemma map_node_contributions:
  "map_node fn n amap self = accumulate_all (contributions (codebase_files self) fn n amap) self"
proof (induction n arbitrary: self)
  case (Node i c nl st ct en chs)
  have ch: "map_children fn chs amap x = accumulate_all (contributions_list (codebase_files x) fn chs amap) x" for x
    by (rule map_children_contributions_aux) (use Node.IH in blast)
  show ?case
    by (cases c; cases nl)
       (simp_all add: ch is_code_node_def lines_of_def platform_key_def split: option.splits)
qed

lemma map_children_contributions:
  "map_children fn ns amap self = accumulate_all (contributions_list (codebase_files self) fn ns amap) self"
  by (rule map_children_contributions_aux) (rule map_node_contributions)

lemma dd_get_dd_add: "dd_get (dd_add k n d) k' = (if k' = k then dd_get d k + n else dd_get d k')"
  by (simp add: dd_get_def dd_add_def AList.update_conv')

lemma sum_values_update: "sum_values (AList.update k v d) = sum_values d - dd_get d k + v"
  by (induction d) (auto simp: sum_values_def dd_get_def)

lemma sum_values_dd_add: "sum_values (dd_add k n d) = sum_values d + n"
  by (simp add: dd_add_def sum_values_update)

lemma keys_dd_add:
  "map fst (dd_add k n d) = (if k \<in> set (map fst d) then map fst d else map fst d @ [k])"
  by (simp add: dd_add_def AList.update_keys)

lemma dd_add_not_Nil: "dd_add k n d \<noteq> []"
  by (cases d) (simp_all add: dd_add_def)

lemma per_file_update: "per_file (AList.update S x fm) S' = (if S' = S then x else per_file fm S')"
  by (simp add: per_file_def AList.update_conv')

lemma line_map_accumulate: "line_map (accumulate S fn n self) = dd_add S n (line_map self)"
  by (simp add: accumulate_eq)

lemma file_map_accumulate:
  "file_map (accumulate S fn n self)
     = AList.update S (dd_add fn n (per_file (file_map self) S)) (file_map self)"
  by (simp add: accumulate_eq)

lemma dd_get_line_map_accumulate_all:
  "dd_get (line_map (accumulate_all cs self)) S = dd_get (line_map self) S + lines_for S cs"
  by (induction cs self rule: accumulate_all.induct)
     (simp_all add: lines_for_def line_map_accumulate dd_get_dd_add)

lemma dd_get_file_map_accumulate_all:
  "dd_get (per_file (file_map (accumulate_all cs self)) S) fn
     = dd_get (per_file (file_map self) S) fn + lines_for_file S fn cs"
  by (induction cs self rule: accumulate_all.induct)
     (simp_all add: lines_for_file_def file_map_accumulate per_file_update dd_get_dd_add)

lemma sum_values_line_map_accumulate_all:
  "sum_values (line_map (accumulate_all cs self))
     = sum_values (line_map self) + sum_list (map (\<lambda>(S, f, k). k) cs)"
  by (induction cs self rule: accumulate_all.induct)
     (simp_all add: line_map_accumulate sum_values_dd_add)

lemma line_map_accumulate_all_not_Nil:
  "cs \<noteq> [] \<or> line_map self \<noteq> [] \<Longrightarrow> line_map (accumulate_all cs self) \<noteq> []"
  by (induction cs self rule: accumulate_all.induct)
     (simp_all add: line_map_accumulate dd_add_not_Nil)

lemma maps_agree_accumulate:
  assumes "maps_agree (line_map self) (file_map self)"
  shows "maps_agree (line_map (accumulate S fn n self)) (file_map (accumulate S fn n self))"
  using assms
  by (auto simp: maps_agree_def line_map_accumulate file_map_accumulate keys_dd_add
      AList.update_keys dd_get_dd_add per_file_update sum_values_dd_add)

lemma maps_agree_accumulate_all:
  "maps_agree (line_map self) (file_map self) \<Longrightarrow>
   maps_agree (line_map (accumulate_all cs self)) (file_map (accumulate_all cs self))"
  by (induction cs self rule: accumulate_all.induct) (simp_all add: maps_agree_accumulate)

lemma distinct_keys_accumulate_all:
  "distinct (map fst (line_map self)) \<Longrightarrow> distinct (map fst (line_map (accumulate_all cs self)))"
  by (induction cs self rule: accumulate_all.induct)
     (simp_all add: line_map_accumulate dd_add_def AList.distinct_update)

lemma map_files_contributions:
  "map_files st self = accumulate_all (state_contributions (codebase_files self) st) self"
  by (induction st self rule: map_files.induct)
     (simp_all add: state_contributions_def map_node_contributions accumulate_all_append)

lemma PlatformMapper_walk_init:
  "PlatformMapper_walk (PlatformMapper_init files) st =
     ((line_map (accumulate_all (state_contributions files st) (PlatformMapper_init files)),
       file_map (accumulate_all (state_contributions files st) (PlatformMapper_init files))),
      accumulate_all (state_contributions files st) (PlatformMapper_init files))"
  by (simp add: PlatformMapper_walk_def Let_def map_files_contributions)
     (simp add: PlatformMapper_init_def)

lemma maps_agree_init: "maps_agree (line_map (PlatformMapper_init files)) (file_map (PlatformMapper_init files))"
  by (simp add: maps_agree_def PlatformMapper_init_def dd_get_def per_file_def sum_values_def)

text \<open>
  C10. After \<open>PlatformMapper.walk\<close> on a new mapper the line map and the file map have the
  same keys (in the same order), and for every platform set the count of the line map
  is the sum, over the files, of the counts the file map holds under that set.
\<close>

theorem line_map_file_map_consistent:
  "map fst (fst (fst (PlatformMapper_walk (PlatformMapper_init files) st)))
     = map fst (snd (fst (PlatformMapper_walk (PlatformMapper_init files) st)))
   \<and> (\<forall>S. dd_get (fst (fst (PlatformMapper_walk (PlatformMapper_init files) st))) S
          = sum_values (per_file (snd (fst (PlatformMapper_walk (PlatformMapper_init files) st))) S))"
  using maps_agree_accumulate_all[OF maps_agree_init, of "state_contributions files st" files]
  by (simp add: PlatformMapper_walk_init maps_agree_def)

lemma map_files_unchanged_or_filled:
  "map_files st self = self \<or> line_map (map_files st self) \<noteq> []"
proof (cases "state_contributions (codebase_files self) st")
  case Nil
  then show ?thesis by (simp add: map_files_contributions)
next
  case (Cons c cs)
  then show ?thesis
    using line_map_accumulate_all_not_Nil[of "state_contributions (codebase_files self) st" self]
    by (simp add: map_files_contributions)
qed

text \<open>
  C4. Idempotence of aggregation: a second \<open>walk\<close> on the same state returns the maps of
  the first and leaves the mapper as the first left it; and a mapper whose line map has
  entries returns its maps as they are, whatever the state.
\<close>

theorem aggregation_idempotent:
  "PlatformMapper_walk (snd (PlatformMapper_walk self st)) st = PlatformMapper_walk self st
   \<and> (line_map self \<noteq> [] \<longrightarrow>
        PlatformMapper_walk self st' = ((line_map self, file_map self), self))"
  using map_files_unchanged_or_filled[of st self]
  by (auto simp: PlatformMapper_walk_def Let_def)

theorem aggregation_idempotent_witness:
  "line_map \<lparr>line_map = [({''p1''}, 5)], file_map = [({''p1''}, [(''a.c'', 5)])],
             codebase_files = [''a.c'']\<rparr> \<noteq> []
   \<and> PlatformMapper_walk \<lparr>line_map = [({''p1''}, 5)], file_map = [({''p1''}, [(''a.c'', 5)])],
             codebase_files = [''a.c'']\<rparr> [(''a.c'', scenario_tree, scenario_map)]
       = (([({''p1''}, 5)], [({''p1''}, [(''a.c'', 5)])]),
          \<lparr>line_map = [({''p1''}, 5)], file_map = [({''p1''}, [(''a.c'', 5)])],
             codebase_files = [''a.c'']\<rparr>)"
proof -
  let ?self = "\<lparr>line_map = [({''p1''}, 5)], file_map = [({''p1''}, [(''a.c'', 5)])],
             codebase_files = [''a.c'']\<rparr>"
  have h: "line_map ?self \<noteq> []" by simp
  from aggregation_idempotent[where self = ?self and st' = "[(''a.c'', scenario_tree, scenario_map)]",
      THEN conjunct2, THEN mp, OF h] h
  show ?thesis by simp
qed

lemma map_files_append: "map_files (xs @ ys) self = map_files ys (map_files xs self)"
  by (induction xs self rule: map_files.induct) simp_all

lemma codebase_files_map_files [simp]: "codebase_files (map_files st self) = codebase_files self"
  by (simp add: map_files_contributions)

text \<open>
  C9. Codebase filtering: when the root of a file's tree is the file node of a path that
  is not among the files of the codebase, \<open>_map_node\<close> returns at once, so the mapper
  is unchanged whatever the tree and the association map hold, and \<open>walk\<close> gives what
  it gives on the state without that file.
\<close>

theorem codebase_filtering:
  assumes "node_class (root t) = FileNode path" and "path \<notin> set (codebase_files self)"
  shows "map_node fn (root t) amap self = self
         \<and> PlatformMapper_walk self (before @ (fn, t, amap) # after)
             = PlatformMapper_walk self (before @ after)"
proof -
  have a: "map_node fn (root t) amap x = x" if "codebase_files x = codebase_files self" for x
    using assms that by (cases "root t") simp
  have "map_files (before @ (fn, t, amap) # after) self = map_files (before @ after) self"
    by (simp add: map_files_append a)
  then show ?thesis by (simp add: PlatformMapper_walk_def a)
qed

theorem codebase_filtering_witness:
  "node_class (root scenario_tree) = FileNode ''a.c''
   \<and> ''a.c'' \<notin> set (codebase_files (PlatformMapper_init [''b.c'']))
   \<and> map_node ''a.c'' (root scenario_tree) scenario_map (PlatformMapper_init [''b.c''])
       = PlatformMapper_init [''b.c'']
   \<and> PlatformMapper_walk (PlatformMapper_init [''b.c'']) [(''a.c'', scenario_tree, scenario_map)]
       = (([], []), PlatformMapper_init [''b.c''])"
proof -
  have h1: "node_class (root scenario_tree) = FileNode ''a.c''"
    by (simp add: scenario_tree_def)
  have h2: "''a.c'' \<notin> set (codebase_files (PlatformMapper_init [''b.c'']))"
    by (simp add: PlatformMapper_init_def)
  have e: "PlatformMapper_walk (PlatformMapper_init [''b.c'']) [] = (([], []), PlatformMapper_init [''b.c''])"
    by (simp add: PlatformMapper_walk_def PlatformMapper_init_def)
  from codebase_filtering[OF h1 h2, of "''a.c''" scenario_map "[]" "[]"] h1 h2 e
  show ?thesis by simp
qed

subsection \<open>Well-formed file trees\<close>

lemma contributions_list_plain_aux:
  assumes "\<And>n. n \<in> set ns \<Longrightarrow> \<forall>d\<in>set (subtree n). \<not> is_FileNode (node_class d) \<Longrightarrow>
     contributions files fn n amap = map (\<lambda>n. (platform_key amap n, fn, lines_of n)) (code_nodes n)"
    and "\<forall>d\<in>set (subtrees ns). \<not> is_FileNode (node_class d)"
  shows "contributions_list files fn ns amap
     = map (\<lambda>n. (platform_key amap n, fn, lines_of n)) (filter is_code_node (subtrees ns))"
  using assms by (induction ns) (simp_all add: code_nodes_def)

lemma contributions_plain:
  "\<forall>d\<in>set (subtree n). \<not> is_FileNode (node_class d) \<Longrightarrow>
   contributions files fn n amap = map (\<lambda>n. (platform_key amap n, fn, lines_of n)) (code_nodes n)"
proof (induction n)
  case (Node i c nl st ct en chs)
  have ch: "contributions_list files fn chs amap
     = map (\<lambda>n. (platform_key amap n, fn, lines_of n)) (filter is_code_node (subtrees chs))"
    by (rule contributions_list_plain_aux) (use Node in auto)
  from Node.prems have "c = OtherNode" by (cases c) auto
  then show ?case by (simp add: ch code_nodes_def)
qed

lemma contributions_list_plain:
  "\<forall>d\<in>set (subtrees ns). \<not> is_FileNode (node_class d) \<Longrightarrow>
   contributions_list files fn ns amap
     = map (\<lambda>n. (platform_key amap n, fn, lines_of n)) (filter is_code_node (subtrees ns))"
  by (rule contributions_list_plain_aux) (simp_all add: contributions_plain)

lemma contributions_file_tree:
  assumes "file_tree fn t"
  shows "contributions files fn (root t) amap
     = (if fn \<in> set files then map (\<lambda>n. (platform_key amap n, fn, lines_of n)) (code_nodes (root t))
        else [])"
proof (cases "root t")
  case (Node i c nl st ct en chs)
  from assms Node have c: "c = FileNode fn"
    and d: "\<forall>d\<in>set (subtrees chs). \<not> is_FileNode (node_class d)"
    by (simp_all add: file_tree_def descendants_def)
  show ?thesis
    using contributions_list_plain[OF d, of files fn amap]
    by (simp add: Node c code_nodes_def is_code_node_def)
qed

lemma state_contributions_attributed:
  "\<forall>(fn, t, amap)\<in>set st. file_tree fn t \<Longrightarrow>
   state_contributions files st = map (\<lambda>(S, f, n). (S, f, lines_of n)) (attributed files st)"
  by (induction st) (auto simp: state_contributions_def attributed_def contributions_file_tree)

lemma lines_for_attributed:
  "lines_for S (map (\<lambda>(S, f, n). (S, f, lines_of n)) xs) = lines_in S xs"
  by (induction xs) (auto simp: lines_for_def lines_in_def)

lemma lines_for_file_attributed:
  "lines_for_file S fn (map (\<lambda>(S, f, n). (S, f, lines_of n)) xs) = lines_in_file S fn xs"
  by (induction xs) (auto simp: lines_for_file_def lines_in_file_def)

lemma total_attributed:
  "sum_list (map (\<lambda>(S, f, k). k) (map (\<lambda>(S, f, n). (S, f, lines_of n)) xs)) = total_lines xs"
  by (induction xs) (auto simp: total_lines_def)

text \<open>
  C3. Conservation of lines. In a state where the tree of every file has the file node
  of that file as its root and no file node below it, after \<open>walk\<close> on a new mapper the
  values of the line map add up to the lines of all code nodes of the files of the
  codebase; the keys of the line map are distinct, and the count under each platform
  set is the sum of the lines of the code nodes whose platform set it is, so that each
  line is counted under one key.
\<close>

theorem conservation_of_lines:
  assumes "\<forall>(fn, t, amap)\<in>set st. file_tree fn t"
  shows "sum_values (fst (fst (PlatformMapper_walk (PlatformMapper_init files) st)))
           = total_lines (attributed files st)
         \<and> distinct (map fst (fst (fst (PlatformMapper_walk (PlatformMapper_init files) st))))
         \<and> (\<forall>S. dd_get (fst (fst (PlatformMapper_walk (PlatformMapper_init files) st))) S
                = lines_in S (attributed files st))"
proof -
  let ?self = "PlatformMapper_init files"
  have lm: "line_map ?self = []" by (simp add: PlatformMapper_init_def)
  have s0: "sum_values (line_map ?self) = 0" by (simp add: lm sum_values_def)
  have g0: "dd_get (line_map ?self) S = 0" for S by (simp add: lm dd_get_def)
  have 1: "sum_values (line_map (accumulate_all (state_contributions files st) ?self))
             = total_lines (attributed files st)"
    unfolding sum_values_line_map_accumulate_all state_contributions_attributed[OF assms]
      total_attributed s0 by simp
  have 2: "distinct (map fst (line_map (accumulate_all (state_contributions files st) ?self)))"
    by (rule distinct_keys_accumulate_all) (simp add: lm)
  have 3: "dd_get (line_map (accumulate_all (state_contributions files st) ?self)) S
             = lines_in S (attributed files st)" for S
    unfolding dd_get_line_map_accumulate_all state_contributions_attributed[OF assms]
      lines_for_attributed g0 by simp
  from 1 2 3 show ?thesis by (simp add: PlatformMapper_walk_init)
qed

theorem conservation_of_lines_witness:
  "file_tree ''a.c'' scenario_tree
   \<and> sum_values (fst (fst (PlatformMapper_walk (PlatformMapper_init [''a.c''])
         [(''a.c'', scenario_tree, scenario_map)]))) = 11
   \<and> total_lines (attributed [''a.c''] [(''a.c'', scenario_tree, scenario_map)]) = 11
   \<and> dd_get (fst (fst (PlatformMapper_walk (PlatformMapper_init [''a.c''])
         [(''a.c'', scenario_tree, scenario_map)]))) {''p2''} = 2"
proof -
  let ?st = "[(''a.c'', scenario_tree, scenario_map)]"
  have ft: "file_tree ''a.c'' scenario_tree"
    by (simp add: file_tree_def scenario_tree_def descendants_def)
  then have h: "\<forall>(fn, t, amap)\<in>set ?st. file_tree fn t" by simp
  have v: "total_lines (attributed [''a.c''] ?st) = 11" by code_simp
  have w: "lines_in {''p2''} (attributed [''a.c''] ?st) = 2" by code_simp
  from conservation_of_lines[OF h, of "[''a.c'']"] ft v w show ?thesis by simp
qed

lemma map_node_code_node:
  assumes "num_lines n = Some k" and "\<not> is_FileNode (node_class n)"
  shows "map_node fn n amap self
     = map_children fn (children n) amap (accumulate (platform_key amap n) fn k self)"
  using assms by (cases n; cases "node_class n") (auto simp: platform_key_def split: option.splits)

text \<open>
  C5. Unassociated attribution. For a code node for which \<open>get_association\<close> returns
  \<open>None\<close> (no record, which is not the same value as a record with no names),
  \<open>_map_node\<close> adds the node's line count to the entry of the empty platform set in the
  line map and to the entry of the file under the empty platform set in the file map,
  and goes on to the children. In a state where every tree has the file node of its
  file as root and no file node below, such a node of a file of the codebase is among
  the code nodes attributed to the empty set, and after \<open>walk\<close> on a new mapper the
  entries of the empty set hold the sums of the lines of those nodes: over all files in
  the line map, over the nodes of the file in the file map.
\<close>

theorem unassociated_attribution:
  assumes "\<forall>(fn, t, amap)\<in>set st. file_tree fn t"
    and "(fn, t, amap) \<in> set st" and "fn \<in> set files"
    and "n \<in> set (code_nodes (root t))" and "get_association amap n = None"
  shows "null_set = {}
     \<and> map_node fn n amap self
          = map_children fn (children n) amap (accumulate null_set fn (lines_of n) self)
     \<and> dd_get (line_map (accumulate null_set fn (lines_of n) self)) null_set
          = dd_get (line_map self) null_set + lines_of n
     \<and> dd_get (per_file (file_map (accumulate null_set fn (lines_of n) self)) null_set) fn
          = dd_get (per_file (file_map self) null_set) fn + lines_of n
     \<and> (null_set, fn, n) \<in> set (attributed files st)
     \<and> dd_get (fst (fst (PlatformMapper_walk (PlatformMapper_init files) st))) null_set
          = lines_in null_set (attributed files st)
     \<and> dd_get (per_file (snd (fst (PlatformMapper_walk (PlatformMapper_init files) st))) null_set) fn
          = lines_in_file null_set fn (attributed files st)"
proof -
  let ?self = "PlatformMapper_init files"
  from assms(4) have cn: "is_code_node n" by (simp add: code_nodes_def)
  then obtain k where k: "num_lines n = Some k" and nf: "\<not> is_FileNode (node_class n)"
    by (auto simp: is_code_node_def)
  have lk: "lines_of n = k" by (simp add: lines_of_def k)
  have key: "platform_key amap n = null_set" by (simp add: platform_key_def assms(5))
  have 1: "map_node fn n amap self
          = map_children fn (children n) amap (accumulate null_set fn (lines_of n) self)"
    using map_node_code_node[OF k nf, of fn amap self] by (simp add: key lk)
  have 2: "dd_get (line_map (accumulate null_set fn (lines_of n) self)) null_set
          = dd_get (line_map self) null_set + lines_of n"
    by (simp add: line_map_accumulate dd_get_dd_add)
  have 3: "dd_get (per_file (file_map (accumulate null_set fn (lines_of n) self)) null_set) fn
          = dd_get (per_file (file_map self) null_set) fn + lines_of n"
    by (simp add: file_map_accumulate per_file_update dd_get_dd_add)
  have 4: "(null_set, fn, n) \<in> set (attributed files st)"
  proof -
    have "(platform_key amap n, fn, n)
            \<in> set (map (\<lambda>n. (platform_key amap n, fn, n)) (code_nodes (root t)))"
      using assms(4) by simp
    then show ?thesis
      unfolding attributed_def key using assms(2,3) by (auto intro!: bexI[of _ "(fn, t, amap)"])
  qed
  have g0: "dd_get (line_map ?self) S = 0" for S
    by (simp add: PlatformMapper_init_def dd_get_def)
  have f0: "dd_get (per_file (file_map ?self) S) f = 0" for S f
    by (simp add: PlatformMapper_init_def dd_get_def per_file_def)
  have 5: "dd_get (line_map (accumulate_all (state_contributions files st) ?self)) null_set
             = lines_in null_set (attributed files st)"
    unfolding dd_get_line_map_accumulate_all state_contributions_attributed[OF assms(1)]
      lines_for_attributed g0 by simp
  have 6: "dd_get (per_file (file_map (accumulate_all (state_contributions files st) ?self)) null_set) fn
             = lines_in_file null_set fn (attributed files st)"
    unfolding dd_get_file_map_accumulate_all state_contributions_attributed[OF assms(1)]
      lines_for_file_attributed f0 by simp
  have 0: "null_set = {}" by (simp add: null_set_def)
  show ?thesis
    unfolding PlatformMapper_walk_init fst_conv snd_conv
    using 0 1 2 3 4 5 6 by (intro conjI)
qed

theorem unassociated_attribution_witness:
  "file_tree ''a.c'' scenario_tree
   \<and> Node 5 OtherNode (Some 2) False False False [] \<in> set (code_nodes (root scenario_tree))
   \<and> get_association (fst (snd (TreeAssociator_walk scenario_eval scenario_tree ''p1''
        (NodeAssociationMap_init, ())))) (Node 5 OtherNode (Some 2) False False False []) = None
   \<and> dd_get (fst (fst (PlatformMapper_walk (PlatformMapper_init [''a.c''])
        [(''a.c'', scenario_tree, fst (snd (TreeAssociator_walk scenario_eval scenario_tree ''p1''
           (NodeAssociationMap_init, ()))))]))) {} = 2
   \<and> dd_get (per_file (snd (fst (PlatformMapper_walk (PlatformMapper_init [''a.c''])
        [(''a.c'', scenario_tree, fst (snd (TreeAssociator_walk scenario_eval scenario_tree ''p1''
           (NodeAssociationMap_init, ()))))]))) {}) ''a.c'' = 2"
proof -
  let ?amap = "fst (snd (TreeAssociator_walk scenario_eval scenario_tree ''p1''
        (NodeAssociationMap_init, ())))"
  let ?n = "Node 5 OtherNode (Some 2) False False False []"
  let ?st = "[(''a.c'', scenario_tree, ?amap)]"
  have ft: "file_tree ''a.c'' scenario_tree"
    by (simp add: file_tree_def scenario_tree_def descendants_def)
  then have h1: "\<forall>(fn, t, amap)\<in>set ?st. file_tree fn t" by simp
  have h2: "(''a.c'', scenario_tree, ?amap) \<in> set ?st" by simp
  have h3: "''a.c'' \<in> set [''a.c'']" by simp
  have h4: "?n \<in> set (code_nodes (root scenario_tree))" by code_simp
  have h5: "get_association ?amap ?n = None" by code_simp
  have v1: "lines_in null_set (attributed [''a.c''] ?st) = 2" by code_simp
  have v2: "lines_in_file null_set ''a.c'' (attributed [''a.c''] ?st) = 2" by code_simp
  from unassociated_attribution[OF h1 h2 h3 h4 h5] ft h4 h5 v1 v2
  show ?thesis by (simp add: null_set_def)
qed

subsection \<open>The order of recording\<close>

lemma map_of_dd_add_same: "map_of (dd_add k n d) k = Some (dd_get d k + n)"
  by (simp add: dd_add_def AList.update_conv')

lemma get_association_record_platforms:
  "ps \<noteq> [] \<Longrightarrow>
   get_association (record_platforms n ps m) n = Some \<lparr>platforms = recorded m (nid n) \<union> set ps\<rparr>"
  by (simp add: record_platforms_eq get_association_def)

lemma map_node_recorded:
  assumes "ps \<noteq> []" and "num_lines n = Some k" and "\<not> is_FileNode (node_class n)"
  shows "map_node fn n (record_platforms n ps m) self
     = map_children fn (children n) (record_platforms n ps m)
         (accumulate (recorded m (nid n) \<union> set ps) fn k self)"
  using map_node_code_node[OF assms(2,3), of fn "record_platforms n ps m" self]
  by (simp add: platform_key_def get_association_record_platforms[OF assms(1)])

lemma accumulate_init:
  "accumulate S fn k (PlatformMapper_init files)
     = \<lparr>line_map = [(S, k)], file_map = [(S, [(fn, k)])], codebase_files = files\<rparr>"
  by (simp add: accumulate_eq PlatformMapper_init_def dd_add_def dd_get_def per_file_def)

lemma walk_single_leaf:
  assumes "ps \<noteq> []" and "num_lines n = Some k" and "\<not> is_FileNode (node_class n)"
    and "children n = []" and "fn \<in> set files"
  shows "PlatformMapper_walk (PlatformMapper_init files)
           [(fn, \<lparr>root = Node i (FileNode fn) rl rs rc re [n]\<rparr>, record_platforms n ps m)]
         = (([(recorded m (nid n) \<union> set ps, k)], [(recorded m (nid n) \<union> set ps, [(fn, k)])]),
            \<lparr>line_map = [(recorded m (nid n) \<union> set ps, k)],
             file_map = [(recorded m (nid n) \<union> set ps, [(fn, k)])],
             codebase_files = files\<rparr>)"
proof -
  let ?self = "PlatformMapper_init files"
  have cf: "codebase_files ?self = files" and lm: "line_map ?self = []"
    by (simp_all add: PlatformMapper_init_def)
  have "map_node fn (Node i (FileNode fn) rl rs rc re [n]) (record_platforms n ps m) ?self
          = map_node fn n (record_platforms n ps m) ?self"
    using assms(5) by (cases rl) (simp_all add: cf)
  also have "\<dots> = accumulate (recorded m (nid n) \<union> set ps) fn k ?self"
    unfolding map_node_recorded[OF assms(1,2,3)] assms(4) by simp
  finally show ?thesis
    by (simp add: PlatformMapper_walk_def Let_def lm accumulate_init)
qed

text \<open>
  C7. Set-key order independence. Let two sequences of passes record the same set of
  platform names on a code node, in any order and with any repetitions. Then the
  association maps are equal and the record of the node holds, in both, the names it
  had together with the names recorded. For both maps \<open>_map_node\<close> on the node
  accumulates its lines under that one frozen set and goes on to the children: the
  entry of the set in the mapper's line map, and the entry of the file under the set
  in its file map, grow by the node's lines. And for a file whose tree is the file node
  with that node as its only child, a leaf, \<open>walk\<close> on a new mapper returns for both
  orders the line map with the single entry of that set and the file map with the
  single entry of the file under it.
\<close>

theorem set_key_order_independent:
  assumes "set ps = set qs" and "ps \<noteq> []"
    and "num_lines n = Some k" and "\<not> is_FileNode (node_class n)"
  shows "record_platforms n ps m = record_platforms n qs m
     \<and> get_association (record_platforms n ps m) n = Some \<lparr>platforms = recorded m (nid n) \<union> set ps\<rparr>
     \<and> get_association (record_platforms n qs m) n = Some \<lparr>platforms = recorded m (nid n) \<union> set ps\<rparr>
     \<and> map_node fn n (record_platforms n ps m) self
          = map_children fn (children n) (record_platforms n ps m)
              (accumulate (recorded m (nid n) \<union> set ps) fn k self)
     \<and> map_node fn n (record_platforms n qs m) self
          = map_children fn (children n) (record_platforms n qs m)
              (accumulate (recorded m (nid n) \<union> set ps) fn k self)
     \<and> map_of (line_map (accumulate (recorded m (nid n) \<union> set ps) fn k self))
            (recorded m (nid n) \<union> set ps)
          = Some (dd_get (line_map self) (recorded m (nid n) \<union> set ps) + k)
     \<and> map_of (per_file (file_map (accumulate (recorded m (nid n) \<union> set ps) fn k self))
            (recorded m (nid n) \<union> set ps)) fn
          = Some (dd_get (per_file (file_map self) (recorded m (nid n) \<union> set ps)) fn + k)
     \<and> (children n = [] \<and> fn \<in> set files \<longrightarrow>
          fst (PlatformMapper_walk (PlatformMapper_init files)
                [(fn, \<lparr>root = Node i (FileNode fn) rl rs rc re [n]\<rparr>, record_platforms n ps m)])
            = ([(recorded m (nid n) \<union> set ps, k)], [(recorded m (nid n) \<union> set ps, [(fn, k)])])
          \<and> fst (PlatformMapper_walk (PlatformMapper_init files)
                [(fn, \<lparr>root = Node i (FileNode fn) rl rs rc re [n]\<rparr>, record_platforms n qs m)])
            = ([(recorded m (nid n) \<union> set ps, k)], [(recorded m (nid n) \<union> set ps, [(fn, k)])]))"
proof -
  let ?K = "recorded m (nid n) \<union> set ps"
  from assms(1,2) have q: "qs \<noteq> []" by auto
  have Kq: "recorded m (nid n) \<union> set qs = ?K" using assms(1) by simp
  have 1: "record_platforms n ps m = record_platforms n qs m"
    using assms(1,2) q by (simp add: record_platforms_eq)
  have 2: "get_association (record_platforms n ps m) n = Some \<lparr>platforms = ?K\<rparr>"
    by (rule get_association_record_platforms[OF assms(2)])
  have 3: "get_association (record_platforms n qs m) n = Some \<lparr>platforms = ?K\<rparr>"
    using get_association_record_platforms[OF q, of n m] by (simp only: Kq)
  have 4: "map_node fn n (record_platforms n ps m) self
          = map_children fn (children n) (record_platforms n ps m) (accumulate ?K fn k self)"
    by (rule map_node_recorded[OF assms(2,3,4)])
  have 5: "map_node fn n (record_platforms n qs m) self
          = map_children fn (children n) (record_platforms n qs m) (accumulate ?K fn k self)"
    using map_node_recorded[OF q assms(3,4), of fn m self] by (simp only: Kq)
  have 6: "map_of (line_map (accumulate ?K fn k self)) ?K = Some (dd_get (line_map self) ?K + k)"
    by (simp only: line_map_accumulate map_of_dd_add_same)
  have 7: "map_of (per_file (file_map (accumulate ?K fn k self)) ?K) fn
          = Some (dd_get (per_file (file_map self) ?K) fn + k)"
    by (simp add: file_map_accumulate per_file_update map_of_dd_add_same)
  have 8: "fst (PlatformMapper_walk (PlatformMapper_init files)
                [(fn, \<lparr>root = Node i (FileNode fn) rl rs rc re [n]\<rparr>, record_platforms n ps m)])
            = ([(?K, k)], [(?K, [(fn, k)])])"
    if "children n = []" "fn \<in> set files"
    by (simp only: walk_single_leaf[OF assms(2,3,4) that] fst_conv)
  have 9: "fst (PlatformMapper_walk (PlatformMapper_init files)
                [(fn, \<lparr>root = Node i (FileNode fn) rl rs rc re [n]\<rparr>, record_platforms n qs m)])
            = ([(?K, k)], [(?K, [(fn, k)])])"
    if "children n = []" "fn \<in> set files"
    using walk_single_leaf[OF q assms(3,4) that, of i rl rs rc re m] by (simp only: Kq fst_conv)
  have 89: "children n = [] \<and> fn \<in> set files \<longrightarrow>
          fst (PlatformMapper_walk (PlatformMapper_init files)
                [(fn, \<lparr>root = Node i (FileNode fn) rl rs rc re [n]\<rparr>, record_platforms n ps m)])
            = ([(?K, k)], [(?K, [(fn, k)])])
          \<and> fst (PlatformMapper_walk (PlatformMapper_init files)
                [(fn, \<lparr>root = Node i (FileNode fn) rl rs rc re [n]\<rparr>, record_platforms n qs m)])
            = ([(?K, k)], [(?K, [(fn, k)])])"
    using 8 9 by blast
  show ?thesis
    using 1 2 3 4 5 6 7 89 by (intro conjI)
qed

theorem set_key_order_independent_witness:
  "set [''linux'', ''mac''] = set [''mac'', ''linux'']
   \<and> fst (PlatformMapper_walk (PlatformMapper_init [''a.c''])
        [(''a.c'', \<lparr>root = Node 0 (FileNode ''a.c'') None False False False
                           [Node 1 OtherNode (Some 2) False False False []]\<rparr>,
          record_platforms (Node 1 OtherNode (Some 2) False False False [])
            [''linux'', ''mac''] NodeAssociationMap_init)])
       = ([({''linux'', ''mac''}, 2)], [({''linux'', ''mac''}, [(''a.c'', 2)])])
   \<and> fst (PlatformMapper_walk (PlatformMapper_init [''a.c''])
        [(''a.c'', \<lparr>root = Node 0 (FileNode ''a.c'') None False False False
                           [Node 1 OtherNode (Some 2) False False False []]\<rparr>,
          record_platforms (Node 1 OtherNode (Some 2) False False False [])
            [''mac'', ''linux''] NodeAssociationMap_init)])
       = ([({''linux'', ''mac''}, 2)], [({''linux'', ''mac''}, [(''a.c'', 2)])])
   \<and> map_of (line_map (map_node ''a.c'' (Node 1 OtherNode (Some 2) False False False [])
        (record_platforms (Node 1 OtherNode (Some 2) False False False [])
            [''mac'', ''linux''] NodeAssociationMap_init)
        \<lparr>line_map = [({''linux'', ''mac''}, 7)], file_map = [({''linux'', ''mac''}, [(''a.c'', 7)])],
          codebase_files = [''a.c'']\<rparr>)) {''linux'', ''mac''} = Some 9"
proof -
  let ?n = "Node 1 OtherNode (Some 2) False False False []"
  let ?K = "{''linux'', ''mac''}"
  let ?self = "\<lparr>line_map = [(?K, 7)], file_map = [(?K, [(''a.c'', 7)])],
          codebase_files = [''a.c'']\<rparr>"
  have h1: "set [''linux'', ''mac''] = set [''mac'', ''linux'']" by auto
  have h2: "[''linux'', ''mac''] \<noteq> []" by simp
  have h3: "num_lines ?n = Some 2" by simp
  have h4: "\<not> is_FileNode (node_class ?n)" by simp
  have h5: "children ?n = [] \<and> ''a.c'' \<in> set [''a.c'']" by simp
  have K: "recorded NodeAssociationMap_init (nid ?n) \<union> set [''linux'', ''mac''] = ?K"
    by (simp add: recorded_def NodeAssociationMap_init_def)
  note t = set_key_order_independent[OF h1 h2 h3 h4, where m = NodeAssociationMap_init and fn = "''a.c''"
      and files = "[''a.c'']" and i = 0 and rl = None and rs = False and rc = False and re = False
      and self = ?self, unfolded K]
  from t h5 have w: "fst (PlatformMapper_walk (PlatformMapper_init [''a.c''])
        [(''a.c'', \<lparr>root = Node 0 (FileNode ''a.c'') None False False False [?n]\<rparr>,
          record_platforms ?n [''linux'', ''mac''] NodeAssociationMap_init)])
       = ([(?K, 2)], [(?K, [(''a.c'', 2)])])
     \<and> fst (PlatformMapper_walk (PlatformMapper_init [''a.c''])
        [(''a.c'', \<lparr>root = Node 0 (FileNode ''a.c'') None False False False [?n]\<rparr>,
          record_platforms ?n [''mac'', ''linux''] NodeAssociationMap_init)])
       = ([(?K, 2)], [(?K, [(''a.c'', 2)])])"
    by blast
  from t have a: "map_node ''a.c'' ?n (record_platforms ?n [''mac'', ''linux''] NodeAssociationMap_init) ?self
       = map_children ''a.c'' (children ?n)
           (record_platforms ?n [''mac'', ''linux''] NodeAssociationMap_init)
           (accumulate ?K ''a.c'' 2 ?self)"
    by blast
  from t have b: "map_of (line_map (accumulate ?K ''a.c'' 2 ?self)) ?K
       = Some (dd_get (line_map ?self) ?K + 2)"
    by blast
  have c: "dd_get (line_map ?self) ?K = 7" by (simp add: dd_get_def)
  have "map_of (line_map (map_node ''a.c'' ?n
          (record_platforms ?n [''mac'', ''linux''] NodeAssociationMap_init) ?self)) ?K = Some 9"
    unfolding a using b c by simp
  with h1 w show ?thesis by blast
qed

section \<open>The end-to-end scenario\<close>

text \<open>
  C2. End-to-end scenario: the file \<open>a.c\<close> has a 3-line code node, a branch group with
  a 5-line code node under \<open>#if A\<close> and a 2-line code node under \<open>#else\<close>, closed by
  \<open>#endif\<close>, and a 1-line code node; \<open>A\<close> is applicable on \<open>p1\<close> and not on \<open>p2\<close>. The
  two associator passes return, and the mapper then returns the line map
  \<open>{p1,p2} \<mapsto> 4, {p1} \<mapsto> 5, {p2} \<mapsto> 2\<close> and the file map with the same counts under
  \<open>a.c\<close>.
\<close>

theorem end_to_end_scenario:
  "fst (TreeAssociator_walk scenario_eval scenario_tree ''p1'' (NodeAssociationMap_init, ())) = Inr ()
   \<and> fst (TreeAssociator_walk scenario_eval scenario_tree ''p2''
        (snd (TreeAssociator_walk scenario_eval scenario_tree ''p1'' (NodeAssociationMap_init, ())))) = Inr ()
   \<and> fst (PlatformMapper_walk (PlatformMapper_init [''a.c'']) [(''a.c'', scenario_tree, scenario_map)])
       = ([({''p1'', ''p2''}, 4), ({''p1''}, 5), ({''p2''}, 2)],
          [({''p1'', ''p2''}, [(''a.c'', 4)]), ({''p1''}, [(''a.c'', 5)]), ({''p2''}, [(''a.c'', 2)])])"
  by code_simp

end
